theory Spec2Isabelle
  imports Complex_Main
begin

section \<open>JavaScript values and builtins used by the sources\<close>

text \<open>
  Numbers are modelled by exact reals (strengths, similarities, embedding entries), by
  \<open>nat\<close> (counts, \<open>Date.now()\<close>) and by \<open>int\<close> (parsed timestamps in
  milliseconds). IEEE rounding, overflow and NaN are outside this embedding.
  Strings are byte lists; \<open>toLowerCase\<close> and the class \<open>\s\<close> are modelled on
  their ASCII part, every other byte is an ordinary unchanged character.
\<close>

definition isSpace :: "char \<Rightarrow> bool" where
  "isSpace c = List.member [CHR 0x09, CHR 0x0A, CHR 0x0B, CHR 0x0C, CHR 0x0D, CHR 0x20] c"

definition lowerChar :: "char \<Rightarrow> char" where
  "lowerChar c =
     (case map_of (zip ''ABCDEFGHIJKLMNOPQRSTUVWXYZ'' ''abcdefghijklmnopqrstuvwxyz'') c of
        None \<Rightarrow> c
      | Some d \<Rightarrow> d)"

definition toLowerCase :: "string \<Rightarrow> string" where
  "toLowerCase s = map lowerChar s"

text \<open>
  \<open>s.split(/\s+/)\<close>: every maximal run of whitespace is one separator; a separator at
  the start or the end of the string leaves an empty piece there, and the empty string
  splits into one empty piece. The first argument is the piece being read.
\<close>

function split_ws_from :: "string \<Rightarrow> string \<Rightarrow> string list" where
  "split_ws_from cur [] = [cur]"
| "split_ws_from cur (c # cs) =
     (if isSpace c then cur # split_ws_from [] (dropWhile isSpace cs)
      else split_ws_from (cur @ [c]) cs)"
  by pat_completeness auto
termination
  by (relation "measure (\<lambda>(cur, s). length s)")
     (auto simp: less_Suc_eq_le length_dropWhile_le)

definition split_ws :: "string \<Rightarrow> string list" where
  "split_ws s = split_ws_from [] s"

text \<open>\<open>parts.join('::')\<close> and \<open>key.split('::')\<close>.\<close>

fun join_colons :: "string list \<Rightarrow> string" where
  "join_colons [] = []"
| "join_colons [x] = x"
| "join_colons (x # y # ys) = x @ ''::'' @ join_colons (y # ys)"

fun split_colons_from :: "string \<Rightarrow> string \<Rightarrow> string list" where
  "split_colons_from cur [] = [cur]"
| "split_colons_from cur [c] = [cur @ [c]]"
| "split_colons_from cur (c # d # s) =
     (if c = CHR '':'' \<and> d = CHR '':'' then cur # split_colons_from [] s
      else split_colons_from (cur @ [c]) (d # s))"

definition split_colons :: "string \<Rightarrow> string list" where
  "split_colons s = split_colons_from [] s"

text \<open>Reading an array element by index: \<open>undefined\<close> (here \<open>None\<close>) out of range.\<close>

definition nth_opt :: "'a list \<Rightarrow> nat \<Rightarrow> 'a option" where
  "nth_opt xs i = (if i < length xs then Some (xs ! i) else None)"

text \<open>
  The default \<open>Array.prototype.sort()\<close> on strings: ascending by code units. Equal
  strings are indistinguishable, so the sorted array is determined by the order alone.
\<close>

fun str_less :: "string \<Rightarrow> string \<Rightarrow> bool" where
  "str_less [] [] = False"
| "str_less [] (y # ys) = True"
| "str_less (x # xs) [] = False"
| "str_less (x # xs) (y # ys) =
     (if (of_char x :: nat) < of_char y then True
      else if (of_char y :: nat) < of_char x then False
      else str_less xs ys)"

fun insert_str :: "string \<Rightarrow> string list \<Rightarrow> string list" where
  "insert_str x [] = [x]"
| "insert_str x (y # ys) = (if str_less y x then y # insert_str x ys else x # y # ys)"

definition js_sort :: "string list \<Rightarrow> string list" where
  "js_sort xs = foldr insert_str xs []"

text \<open>The template literal \<open>`${n}`\<close> of a non-negative integer: its decimal digits.\<close>

function decimal :: "nat \<Rightarrow> string" where
  "decimal n =
     (if n < 10 then [''0123456789'' ! n] else decimal (n div 10) @ [''0123456789'' ! (n mod 10)])"
  by pat_completeness auto
termination
  by (relation "measure (\<lambda>n. n)") auto

declare decimal.simps [simp del]

text \<open>
  A JavaScript \<open>Map\<close>: the entries in insertion order. \<open>set\<close> on a key already
  present replaces the value in place, on a new key it appends the entry.
\<close>

type_synonym ('k, 'v) js_map = "('k \<times> 'v) list"

definition Map_get :: "('k, 'v) js_map \<Rightarrow> 'k \<Rightarrow> 'v option" where
  "Map_get m k = map_of m k"

definition Map_has :: "('k, 'v) js_map \<Rightarrow> 'k \<Rightarrow> bool" where
  "Map_has m k = (map_of m k \<noteq> None)"

fun Map_set :: "('k, 'v) js_map \<Rightarrow> 'k \<Rightarrow> 'v \<Rightarrow> ('k, 'v) js_map" where
  "Map_set [] k v = [(k, v)]"
| "Map_set ((k', v') # m) k v = (if k' = k then (k, v) # m else (k', v') # Map_set m k v)"

definition Map_size :: "('k, 'v) js_map \<Rightarrow> nat" where
  "Map_size m = length m"

definition Map_values :: "('k, 'v) js_map \<Rightarrow> 'v list" where
  "Map_values m = map snd m"

text \<open>\<open>findIndex\<close>: the first index whose element satisfies the test, \<open>None\<close> for -1.\<close>

fun findIndex :: "('a \<Rightarrow> bool) \<Rightarrow> 'a list \<Rightarrow> nat option" where
  "findIndex P [] = None"
| "findIndex P (x # xs) =
     (if P x then Some 0 else (case findIndex P xs of None \<Rightarrow> None | Some i \<Rightarrow> Some (Suc i)))"

text \<open>\<open>xs.slice(0, limit)\<close>: a negative end counts from the end of the array.\<close>

definition slice0 :: "'a list \<Rightarrow> int \<Rightarrow> 'a list" where
  "slice0 xs limit =
     (if 0 \<le> limit then take (nat limit) xs else take (length xs - nat (- limit)) xs)"

section \<open>Vector store (in-memory fallback)\<close>

record DocInput =
  di_id :: string
  di_content :: string
  di_metadata :: "(string \<times> string) list"

record VectorDocument =
  vd_id :: string
  vd_content :: string
  vd_metadata :: "(string \<times> string) list"
  vd_embedding :: "real list option"

record SearchResult =
  sr_id :: string
  sr_content :: string
  sr_metadata :: "(string \<times> string) list"
  sr_similarity :: real

text \<open>The first \<open>forEach\<close> of \<open>generateSimpleEmbedding\<close> builds the vocabulary.\<close>

definition vocab_step :: "string \<Rightarrow> (string, nat) js_map \<Rightarrow> (string, nat) js_map" where
  "vocab_step word vocab =
     (if \<not> Map_has vocab word then Map_set vocab word (Map_size vocab) else vocab)"

text \<open>
  The second \<open>forEach\<close> counts the words whose index is below 100. Such an index is
  below the length of the array too (\<open>count_step_index_in_range\<close> below), so the
  assignment never extends the array.
\<close>

definition count_step :: "(string, nat) js_map \<Rightarrow> string \<Rightarrow> real list \<Rightarrow> real list" where
  "count_step vocab word embedding =
     (case Map_get vocab word of
        None \<Rightarrow> embedding
      | Some idx \<Rightarrow> if idx < 100 then embedding[idx := embedding ! idx + 1] else embedding)"

text \<open>\<open>Math.sqrt(v.reduce((sum, val) => sum + val * val, 0))\<close>\<close>

definition magnitude_of :: "real list \<Rightarrow> real" where
  "magnitude_of v = sqrt (fold (\<lambda>val sum. sum + val * val) v 0)"

definition embed_words :: "string list \<Rightarrow> real list" where
  "embed_words words =
     (let vocab = fold vocab_step words [];
          embedding = fold (count_step vocab) words (replicate (min (Map_size vocab) 100) 0);
          magnitude = magnitude_of embedding
      in if magnitude > 0 then map (\<lambda>v. v / magnitude) embedding else embedding)"

definition generateSimpleEmbedding :: "string \<Rightarrow> real list" where
  "generateSimpleEmbedding text = embed_words (split_ws (toLowerCase text))"

text \<open>
  \<open>cosineSimilarity\<close>, with the sums, products, square roots and the quotient taken in
  exact real arithmetic. The source computes them in IEEE doubles, where each of them is
  rounded; so nothing is proved below of the value this function computes when the lengths
  agree. The test on the lengths, and the 0 it returns, do not depend on the arithmetic.
\<close>

definition cosineSimilarity :: "real list \<Rightarrow> real list \<Rightarrow> real" where
  "cosineSimilarity a b =
     (if length a \<noteq> length b then 0
      else
        let (dotProduct, magnitudeA, magnitudeB) =
              fold (\<lambda>i (d, ma, mb). (d + a ! i * b ! i, ma + a ! i * a ! i, mb + b ! i * b ! i))
                [0..<length a] (0, 0, 0);
            magnitudeA = sqrt magnitudeA;
            magnitudeB = sqrt magnitudeB
        in if magnitudeA = 0 \<or> magnitudeB = 0 then 0
           else dotProduct / (magnitudeA * magnitudeB))"

definition addDocument :: "DocInput \<Rightarrow> VectorDocument list \<Rightarrow> VectorDocument list" where
  "addDocument doc inMemoryStore =
     inMemoryStore @
       [\<lparr>vd_id = di_id doc, vd_content = di_content doc, vd_metadata = di_metadata doc,
         vd_embedding = Some (generateSimpleEmbedding (di_content doc))\<rparr>]"

definition addDocuments :: "DocInput list \<Rightarrow> VectorDocument list \<Rightarrow> VectorDocument list" where
  "addDocuments docs inMemoryStore = fold addDocument docs inMemoryStore"

definition deleteDocument :: "string \<Rightarrow> VectorDocument list \<Rightarrow> VectorDocument list" where
  "deleteDocument ident inMemoryStore =
     (case findIndex (\<lambda>doc. vd_id doc = ident) inMemoryStore of
        None \<Rightarrow> inMemoryStore
      | Some index \<Rightarrow> take index inMemoryStore @ drop (Suc index) inMemoryStore)"

definition updateDocument :: "DocInput \<Rightarrow> VectorDocument list \<Rightarrow> VectorDocument list" where
  "updateDocument doc inMemoryStore = addDocument doc (deleteDocument (di_id doc) inMemoryStore)"

text \<open>
  \<open>search\<close>: score every stored document, sort by descending similarity (the sort is
  stable), keep \<open>slice(0, limit)\<close>.
\<close>

definition search :: "string \<Rightarrow> int \<Rightarrow> VectorDocument list \<Rightarrow> SearchResult list" where
  "search query limit inMemoryStore =
     (let queryEmbedding = generateSimpleEmbedding query;
          scored = map (\<lambda>doc. (doc, cosineSimilarity queryEmbedding
                                  (case vd_embedding doc of None \<Rightarrow> [] | Some e \<Rightarrow> e)))
                     inMemoryStore;
          sorted = sort_key (\<lambda>p. - snd p) scored
      in map (\<lambda>p. \<lparr>sr_id = vd_id (fst p), sr_content = vd_content (fst p),
                    sr_metadata = vd_metadata (fst p), sr_similarity = snd p\<rparr>)
           (slice0 sorted limit))"

section \<open>Knowledge graph (in-memory store, no database driver)\<close>

datatype update_type = T_note | T_link | T_tag | T_learning_path | T_learning_progress | T_meta_pattern

datatype update_action = A_create | A_update | A_delete | A_merge

text \<open>
  The payload \<open>data\<close> of an update: the keys the sources read, with the types they are
  cast to. \<open>None\<close> is a key that is absent (\<open>undefined\<close>), for the keys whose absence
  the sources provide for. \<open>d_fields\<close> holds every other key (folder, filename, content,
  summary and so on).
\<close>

record UpdateData =
  d_source :: string
  d_target :: string
  d_relationship :: string
  d_strength :: "real option"
  d_bidirectional :: "bool option"
  d_tags :: "string list option"
  d_fields :: "(string \<times> string) list"

record KnowledgeGraphUpdate =
  utype :: update_type
  action :: update_action
  data :: UpdateData

datatype Properties = DataProps UpdateData | NameProps string

record GraphNode =
  node_id :: string
  node_type :: string
  properties :: Properties
  createdAt :: nat
  updatedAt :: nat

record GraphLink =
  link_id :: string
  source :: string
  target :: string
  relationship :: string
  strength :: real
  bidirectional :: bool

record KnowledgeGraph =
  inMemoryNodes :: "(string, GraphNode) js_map"
  inMemoryLinks :: "GraphLink list"

definition emptyGraph :: KnowledgeGraph where
  "emptyGraph = \<lparr>inMemoryNodes = [], inMemoryLinks = []\<rparr>"

datatype error = TypeError

text \<open>
  Every handler reads the clock; \<open>now\<close> is the reading of \<open>Date.now()\<close> (milliseconds)
  while the update is handled, and \<open>new Date()\<close> in the same handler is that reading too.
\<close>

definition handleNoteUpdate :: "nat \<Rightarrow> KnowledgeGraphUpdate \<Rightarrow> KnowledgeGraph \<Rightarrow> KnowledgeGraph" where
  "handleNoteUpdate now update kg =
     (let ident = ''note_'' @ decimal now;
          node = \<lparr>node_id = ident, node_type = ''Note'', properties = DataProps (data update),
                  createdAt = now, updatedAt = now\<rparr>
      in kg\<lparr>inMemoryNodes := Map_set (inMemoryNodes kg) ident node\<rparr>)"

text \<open>\<open>data.strength || 1.0\<close> and \<open>data.bidirectional || false\<close>: 0 is falsy too.\<close>

definition handleLinkUpdate :: "nat \<Rightarrow> KnowledgeGraphUpdate \<Rightarrow> KnowledgeGraph \<Rightarrow> KnowledgeGraph" where
  "handleLinkUpdate now update kg =
     (let link = \<lparr>link_id = ''link_'' @ decimal now,
                  source = d_source (data update),
                  target = d_target (data update),
                  relationship = d_relationship (data update),
                  strength = (case d_strength (data update) of
                                None \<Rightarrow> 1 | Some s \<Rightarrow> if s = 0 then 1 else s),
                  bidirectional = (case d_bidirectional (data update) of
                                     None \<Rightarrow> False | Some b \<Rightarrow> b)\<rparr>
      in kg\<lparr>inMemoryLinks := inMemoryLinks kg @ [link]\<rparr>)"

definition tagNode :: "nat \<Rightarrow> string \<Rightarrow> GraphNode" where
  "tagNode now tag = \<lparr>node_id = ''tag_'' @ tag, node_type = ''Tag'', properties = NameProps tag,
     createdAt = now, updatedAt = now\<rparr>"

definition tag_step :: "nat \<Rightarrow> string \<Rightarrow> KnowledgeGraph \<Rightarrow> KnowledgeGraph" where
  "tag_step now tag kg =
     (let n = tagNode now tag
      in if \<not> Map_has (inMemoryNodes kg) (node_id n)
         then kg\<lparr>inMemoryNodes := Map_set (inMemoryNodes kg) (node_id n) n\<rparr>
         else kg)"

text \<open>Iterating over \<open>data.tags\<close> when the key is absent throws a TypeError.\<close>

definition handleTagUpdate :: "nat \<Rightarrow> KnowledgeGraphUpdate \<Rightarrow> KnowledgeGraph \<Rightarrow> error + KnowledgeGraph" where
  "handleTagUpdate now update kg =
     (case d_tags (data update) of
        None \<Rightarrow> Inl TypeError
      | Some tags \<Rightarrow> Inr (fold (tag_step now) tags kg))"

definition handleLearningUpdate :: "nat \<Rightarrow> KnowledgeGraphUpdate \<Rightarrow> KnowledgeGraph \<Rightarrow> KnowledgeGraph" where
  "handleLearningUpdate now update kg =
     (let ident = ''learning_'' @ decimal now;
          node = \<lparr>node_id = ident, node_type = ''LearningPath'', properties = DataProps (data update),
                  createdAt = now, updatedAt = now\<rparr>
      in kg\<lparr>inMemoryNodes := Map_set (inMemoryNodes kg) ident node\<rparr>)"

definition handlePatternUpdate :: "nat \<Rightarrow> KnowledgeGraphUpdate \<Rightarrow> KnowledgeGraph \<Rightarrow> KnowledgeGraph" where
  "handlePatternUpdate now update kg =
     (let ident = ''pattern_'' @ decimal now;
          node = \<lparr>node_id = ident, node_type = ''MetaPattern'', properties = DataProps (data update),
                  createdAt = now, updatedAt = now\<rparr>
      in kg\<lparr>inMemoryNodes := Map_set (inMemoryNodes kg) ident node\<rparr>)"

definition applyUpdate :: "nat \<Rightarrow> KnowledgeGraphUpdate \<Rightarrow> KnowledgeGraph \<Rightarrow> error + KnowledgeGraph" where
  "applyUpdate now update kg =
     (case utype update of
        T_note \<Rightarrow> Inr (handleNoteUpdate now update kg)
      | T_link \<Rightarrow> Inr (handleLinkUpdate now update kg)
      | T_tag \<Rightarrow> handleTagUpdate now update kg
      | T_learning_path \<Rightarrow> Inr (handleLearningUpdate now update kg)
      | T_learning_progress \<Rightarrow> Inr (handleLearningUpdate now update kg)
      | T_meta_pattern \<Rightarrow> Inr (handlePatternUpdate now update kg))"

text \<open>
  \<open>applyUpdates\<close>: the batch in order, each update paired with the clock reading at
  which it is handled; the first error ends the batch.
\<close>

fun applyUpdates :: "(nat \<times> KnowledgeGraphUpdate) list \<Rightarrow> KnowledgeGraph \<Rightarrow> error + KnowledgeGraph" where
  "applyUpdates [] kg = Inr kg"
| "applyUpdates ((now, update) # updates) kg =
     (case applyUpdate now update kg of
        Inl e \<Rightarrow> Inl e
      | Inr kg' \<Rightarrow> applyUpdates updates kg')"

text \<open>
  \<open>queryWeakLinks\<close> computes a cutoff date from \<open>days\<close> (here in milliseconds, a day
  taken as 86400000 ms) and then filters on the threshold.
\<close>

definition queryWeakLinks :: "nat \<Rightarrow> int \<Rightarrow> real \<Rightarrow> KnowledgeGraph \<Rightarrow> GraphLink list" where
  "queryWeakLinks now days threshold kg =
     (let cutoffDate = int now - days * 86400000
      in filter (\<lambda>link. strength link < threshold) (inMemoryLinks kg))"

text \<open>\<open>find\<close> yields the first link of the pair; its strength is assigned in place.\<close>

definition incrementLinkWeight :: "string \<Rightarrow> string \<Rightarrow> KnowledgeGraph \<Rightarrow> KnowledgeGraph" where
  "incrementLinkWeight src tgt kg =
     (case findIndex (\<lambda>l. source l = src \<and> target l = tgt) (inMemoryLinks kg) of
        None \<Rightarrow> kg
      | Some i \<Rightarrow>
          (let link = inMemoryLinks kg ! i
           in kg\<lparr>inMemoryLinks :=
                   (inMemoryLinks kg)[i := link\<lparr>strength := min 1 (strength link + 0.1)\<rparr>]\<rparr>))"

definition removeLink :: "string \<Rightarrow> KnowledgeGraph \<Rightarrow> KnowledgeGraph" where
  "removeLink linkId kg =
     (case findIndex (\<lambda>l. link_id l = linkId) (inMemoryLinks kg) of
        None \<Rightarrow> kg
      | Some index \<Rightarrow>
          kg\<lparr>inMemoryLinks := take index (inMemoryLinks kg) @ drop (Suc index) (inMemoryLinks kg)\<rparr>)"

section \<open>Update reconciler\<close>

text \<open>
  \<open>a > b\<close> on numbers that may be \<open>undefined\<close>: false as soon as one side is
  \<open>undefined\<close>.
\<close>

fun js_gt :: "real option \<Rightarrow> real option \<Rightarrow> bool" where
  "js_gt (Some a) (Some b) = (a > b)"
| "js_gt _ _ = False"

text \<open>
  The filter of \<open>resolveConflicts\<close>. \<open>tags?.sort()\<close> sorts the array of the update in
  place; \<open>JSON.stringify\<close> of an array of strings is one-to-one, so the sorted array
  (or \<open>undefined\<close>) stands for the key.
\<close>

definition dedup_step ::
  "KnowledgeGraphUpdate \<Rightarrow> string list option list \<times> KnowledgeGraphUpdate list \<Rightarrow>
   string list option list \<times> KnowledgeGraphUpdate list" where
  "dedup_step update st =
     (let (seenTags, kept) = st in
      if utype update = T_tag then
        (let key = map_option js_sort (d_tags (data update));
             update' = update\<lparr>data := (data update)\<lparr>d_tags := key\<rparr>\<rparr>
         in if List.member seenTags key then (seenTags, kept)
            else (seenTags @ [key], kept @ [update']))
      else (seenTags, kept @ [update]))"

definition merge_step ::
  "KnowledgeGraphUpdate \<Rightarrow> (string, KnowledgeGraphUpdate) js_map \<times> KnowledgeGraphUpdate list \<Rightarrow>
   (string, KnowledgeGraphUpdate) js_map \<times> KnowledgeGraphUpdate list" where
  "merge_step update st =
     (let (linkMap, nonLinks) = st in
      if utype update = T_link then
        (let tgt = d_target (data update)
         in case Map_get linkMap tgt of
              Some existing \<Rightarrow>
                if js_gt (d_strength (data update)) (d_strength (data existing))
                then (Map_set linkMap tgt update, nonLinks)
                else (linkMap, nonLinks)
            | None \<Rightarrow> (Map_set linkMap tgt update, nonLinks))
      else (linkMap, nonLinks @ [update]))"

definition resolveConflicts :: "KnowledgeGraphUpdate list \<Rightarrow> KnowledgeGraphUpdate list" where
  "resolveConflicts updates =
     (let deduped = snd (fold dedup_step updates ([], []));
          (linkMap, nonLinks) = fold merge_step deduped ([], [])
      in nonLinks @ Map_values linkMap)"

section \<open>Memory consolidation\<close>

record Activity =
  noteId :: string
  timestamp :: int

record AccessPair =
  pair_count :: nat
  lastAccess :: int

record PatternMatch =
  sourceNote :: "string option"
  targetNote :: "string option"
  frequency :: nat
  lastAccessed :: int

text \<open>The body of the inner loop of \<open>extractPatterns\<close>; \<open>new Date(0)\<close> is 0.\<close>

definition pair_step :: "Activity \<Rightarrow> Activity \<Rightarrow> (string, AccessPair) js_map \<Rightarrow> (string, AccessPair) js_map" where
  "pair_step activity1 activity2 accessPairs =
     (let timeDiff = \<bar>timestamp activity1 - timestamp activity2\<bar>
      in if timeDiff < 5 * 60 * 1000 then
           (let key = join_colons (js_sort [noteId activity1, noteId activity2]);
                existing = (case Map_get accessPairs key of
                              None \<Rightarrow> \<lparr>pair_count = 0, lastAccess = 0\<rparr>
                            | Some e \<Rightarrow> e)
            in Map_set accessPairs key
                 \<lparr>pair_count = pair_count existing + 1,
                  lastAccess = max (lastAccess existing) (timestamp activity1)\<rparr>)
         else accessPairs)"

definition extractPatterns :: "Activity list \<Rightarrow> PatternMatch list" where
  "extractPatterns activities =
     (let accessPairs =
            fold (\<lambda>i m. fold (\<lambda>j m. pair_step (activities ! i) (activities ! j) m)
                           [i + 1..<length activities] m)
              [0..<length activities] []
      in map (\<lambda>(key, v).
                (let parts = split_colons key
                 in \<lparr>sourceNote = nth_opt parts 0, targetNote = nth_opt parts 1,
                     frequency = pair_count v, lastAccessed = lastAccess v\<rparr>))
           accessPairs)"

section \<open>The specification's reading of the weak-link query, and example values\<close>

text \<open>
  The query as the specification words it: below the threshold and last touched within
  \<open>days\<close>. A stored link has no last-touched timestamp, so the timestamps are a
  parameter here.
\<close>

definition spec_queryWeakLinks ::
  "(GraphLink \<Rightarrow> int) \<Rightarrow> nat \<Rightarrow> int \<Rightarrow> real \<Rightarrow> KnowledgeGraph \<Rightarrow> GraphLink list" where
  "spec_queryWeakLinks lastTouched now days threshold kg =
     filter (\<lambda>link. strength link < threshold \<and> int now - days * 86400000 \<le> lastTouched link)
       (inMemoryLinks kg)"

definition example_link :: "real \<Rightarrow> GraphLink" where
  "example_link s = \<lparr>link_id = ''link_1'', source = ''a'', target = ''b'',
     relationship = ''supports'', strength = s, bidirectional = False\<rparr>"

definition example_graph :: "real list \<Rightarrow> KnowledgeGraph" where
  "example_graph ss = \<lparr>inMemoryNodes = [], inMemoryLinks = map example_link ss\<rparr>"

definition empty_data :: UpdateData where
  "empty_data = \<lparr>d_source = [], d_target = [], d_relationship = [], d_strength = None,
     d_bidirectional = None, d_tags = None, d_fields = []\<rparr>"

definition link_update :: "string \<Rightarrow> string \<Rightarrow> real option \<Rightarrow> KnowledgeGraphUpdate" where
  "link_update src tgt s = \<lparr>utype = T_link, action = A_create,
     data = empty_data\<lparr>d_source := src, d_target := tgt, d_relationship := ''supports'',
              d_strength := s\<rparr>\<rparr>"

definition tag_update :: "string list \<Rightarrow> KnowledgeGraphUpdate" where
  "tag_update tags = \<lparr>utype = T_tag, action = A_create, data = empty_data\<lparr>d_tags := Some tags\<rparr>\<rparr>"

definition note_update :: "string \<Rightarrow> KnowledgeGraphUpdate" where
  "note_update body = \<lparr>utype = T_note, action = A_create,
     data = empty_data\<lparr>d_fields := [(''content'', body)]\<rparr>\<rparr>"

section \<open>The specification's reading of the fallback embedding, and reachable stores\<close>

text \<open>
  The embedding as the specification words it, on the tokens of the text: the index of a
  word is the number of distinct words seen before its first occurrence; entry \<open>i\<close> of
  the vector counts the tokens whose word has index \<open>i\<close>; the vector has \<open>n\<close>
  entries and is L2-normalised unless its magnitude is zero.
\<close>

definition word_index :: "string list \<Rightarrow> string \<Rightarrow> nat" where
  "word_index ws w = card (set (takeWhile (\<lambda>x. x \<noteq> w) ws))"

definition term_counts :: "nat \<Rightarrow> string list \<Rightarrow> real list" where
  "term_counts n ws = map (\<lambda>i. real (length (filter (\<lambda>w. word_index ws w = i) ws))) [0..<n]"

definition l2_normalize :: "real list \<Rightarrow> real list" where
  "l2_normalize v =
     (let m = sqrt (\<Sum>x\<leftarrow>v. x * x) in if m = 0 then v else map (\<lambda>x. x / m) v)"

definition spec_embedding :: "string \<Rightarrow> real list" where
  "spec_embedding text = l2_normalize (term_counts 100 (split_ws (toLowerCase text)))"

text \<open>The in-memory stores that the operations of the vector store build from the empty one.\<close>

inductive reachable_store :: "VectorDocument list \<Rightarrow> bool" where
  initial: "reachable_store []"
| added: "reachable_store s \<Longrightarrow> reachable_store (addDocument doc s)"
| deleted: "reachable_store s \<Longrightarrow> reachable_store (deleteDocument ident s)"

section \<open>findIndex\<close>

lemma findIndex_SomeD:
  "findIndex P xs = Some i \<Longrightarrow> i < length xs \<and> P (xs ! i) \<and> (\<forall>j<i. \<not> P (xs ! j))"
proof (induction xs arbitrary: i)
  case Nil
  then show ?case by simp
next
  case (Cons x xs)
  show ?case
  proof (cases "P x")
    case True
    with Cons.prems show ?thesis by simp
  next
    case False
    with Cons.prems obtain i' where i': "findIndex P xs = Some i'" "i = Suc i'"
      by (auto split: option.splits)
    with Cons.IH [of i'] False show ?thesis
      by (auto simp: nth_Cons less_Suc_eq_0_disj split: nat.splits)
  qed
qed

lemma findIndex_None_iff: "findIndex P xs = None \<longleftrightarrow> (\<forall>x\<in>set xs. \<not> P x)"
  by (induction xs) (auto split: option.splits)

lemma findIndex_exists:
  "k < length xs \<Longrightarrow> P (xs ! k) \<Longrightarrow> \<exists>i\<le>k. findIndex P xs = Some i"
proof -
  assume k: "k < length xs" "P (xs ! k)"
  then have "findIndex P xs \<noteq> None"
    by (auto simp: findIndex_None_iff)
  then obtain i where i: "findIndex P xs = Some i" by auto
  with findIndex_SomeD [OF i] k have "i \<le> k"
    by (meson not_le_imp_less)
  with i show ?thesis by blast
qed

lemma findIndex_cong_map: "map P xs = map P ys \<Longrightarrow> findIndex P xs = findIndex P ys"
proof (induction xs arbitrary: ys)
  case Nil
  then show ?case by simp
next
  case (Cons x xs)
  then obtain y ys' where ys: "ys = y # ys'" by (cases ys) auto
  with Cons.prems have "P x = P y" "map P xs = map P ys'" by simp_all
  with Cons.IH [of ys'] ys show ?case by simp
qed

section \<open>Map entries\<close>

lemma Map_has_iff: "Map_has m k \<longleftrightarrow> k \<in> fst ` set m"
  by (simp add: Map_has_def map_of_eq_None_iff)

lemma Map_set_absent: "\<not> Map_has m k \<Longrightarrow> Map_set m k v = m @ [(k, v)]"
  by (induction m) (auto simp: Map_has_iff)

lemma map_of_Map_set: "map_of (Map_set m k v) = (map_of m)(k \<mapsto> v)"
  by (induction m) auto

lemma keys_Map_set: "fst ` set (Map_set m k v) = insert k (fst ` set m)"
  by (simp add: dom_map_of_conv_image_fst [symmetric] map_of_Map_set)

lemma entries_Map_set: "e \<in> set (Map_set m k v) \<Longrightarrow> e = (k, v) \<or> e \<in> set m"
  by (induction m) (auto split: if_splits)

lemma distinct_Map_set: "distinct (map fst m) \<Longrightarrow> distinct (map fst (Map_set m k v))"
  by (induction m) (auto simp: keys_Map_set)

section \<open>Weak links\<close>

text \<open>
  No recency filter can be read into the query: whatever last-touched timestamps the three
  example links are given, there are a clock reading and a number of days for which the
  query returns a link that was not touched within those days.
\<close>

lemma queryWeakLinks_no_recency_filter:
  "\<not> (\<exists>lastTouched. \<forall>now days.
        queryWeakLinks now days (4 / 10) (example_graph [1 / 10, 5 / 10, 9 / 10]) =
        spec_queryWeakLinks lastTouched now days (4 / 10) (example_graph [1 / 10, 5 / 10, 9 / 10]))"
proof
  assume "\<exists>lastTouched. \<forall>now days.
        queryWeakLinks now days (4 / 10) (example_graph [1 / 10, 5 / 10, 9 / 10]) =
        spec_queryWeakLinks lastTouched now days (4 / 10) (example_graph [1 / 10, 5 / 10, 9 / 10])"
  then obtain lastTouched where eq: "\<And>now days.
        queryWeakLinks now days (4 / 10) (example_graph [1 / 10, 5 / 10, 9 / 10]) =
        spec_queryWeakLinks lastTouched now days (4 / 10) (example_graph [1 / 10, 5 / 10, 9 / 10])"
    by blast
  define now where "now = nat (lastTouched (example_link (1 / 10)) + 1)"
  have late: "\<not> int now \<le> lastTouched (example_link (1 / 10))"
    by (simp add: now_def)
  have "queryWeakLinks now 0 (4 / 10) (example_graph [1 / 10, 5 / 10, 9 / 10]) = [example_link (1 / 10)]"
    by (simp add: queryWeakLinks_def example_graph_def example_link_def)
  moreover have "spec_queryWeakLinks lastTouched now 0 (4 / 10) (example_graph [1 / 10, 5 / 10, 9 / 10]) = []"
    using late by (simp add: spec_queryWeakLinks_def example_graph_def) (simp add: example_link_def)
  ultimately show False using eq [of now 0] by simp
qed

text \<open>
  Claim C6. On every store, for every clock reading and every value of \<open>days\<close>, the
  code returns the links whose strength is below the threshold and no others: the cutoff
  date it computes from \<open>days\<close> is not used. On links of strengths 0.1, 0.5 and 0.9
  and threshold 0.4 it returns the 0.1 link whatever \<open>days\<close> is, also when that link
  was not touched within \<open>days\<close>.
\<close>

theorem queryWeakLinks_threshold_only:
  "queryWeakLinks now days threshold kg = filter (\<lambda>link. strength link < threshold) (inMemoryLinks kg)
   \<and> queryWeakLinks now days (4 / 10) (example_graph [1 / 10, 5 / 10, 9 / 10]) = [example_link (1 / 10)]"
  by (simp add: queryWeakLinks_def example_graph_def example_link_def)

section \<open>Strengthening a link\<close>

lemma incrementLinkWeight_found:
  assumes "findIndex (\<lambda>l. source l = src \<and> target l = tgt) (inMemoryLinks kg) = Some i"
  shows "inMemoryLinks (incrementLinkWeight src tgt kg) =
           (inMemoryLinks kg)[i := (inMemoryLinks kg ! i)
              \<lparr>strength := min 1 (strength (inMemoryLinks kg ! i) + 0.1)\<rparr>]"
  using assms by (simp add: incrementLinkWeight_def Let_def)

lemma incrementLinkWeight_keeps_index:
  assumes "findIndex (\<lambda>l. source l = src \<and> target l = tgt) (inMemoryLinks kg) = Some i"
  shows "findIndex (\<lambda>l. source l = src \<and> target l = tgt)
           (inMemoryLinks (incrementLinkWeight src tgt kg)) = Some i"
proof -
  let ?P = "\<lambda>l. source l = src \<and> target l = tgt"
  let ?ls = "inMemoryLinks kg"
  let ?l' = "(?ls ! i)\<lparr>strength := min 1 (strength (?ls ! i) + 0.1)\<rparr>"
  have i: "i < length ?ls"
    using findIndex_SomeD [OF assms] by simp
  have "map ?P (?ls[i := ?l']) = map ?P ?ls"
    using i by (simp add: map_update list_update_same_conv)
  then have "findIndex ?P (?ls[i := ?l']) = findIndex ?P ?ls"
    by (rule findIndex_cong_map)
  then show ?thesis
    using assms by (simp add: incrementLinkWeight_found [OF assms])
qed

lemma incrementLinkWeight_iterate:
  assumes "findIndex (\<lambda>l. source l = src \<and> target l = tgt) (inMemoryLinks kg) = Some i"
  shows "findIndex (\<lambda>l. source l = src \<and> target l = tgt)
           (inMemoryLinks ((incrementLinkWeight src tgt ^^ n) kg)) = Some i
         \<and> (\<forall>j. j \<noteq> i \<longrightarrow> inMemoryLinks ((incrementLinkWeight src tgt ^^ n) kg) ! j = inMemoryLinks kg ! j)"
proof (induction n)
  case 0
  show ?case using assms by simp
next
  case (Suc n)
  let ?kg = "(incrementLinkWeight src tgt ^^ n) kg"
  from Suc have fi: "findIndex (\<lambda>l. source l = src \<and> target l = tgt) (inMemoryLinks ?kg) = Some i"
    by simp
  have "inMemoryLinks ((incrementLinkWeight src tgt ^^ Suc n) kg) ! j = inMemoryLinks kg ! j"
    if "j \<noteq> i" for j
    using that Suc by (simp add: incrementLinkWeight_found [OF fi])
  moreover have "findIndex (\<lambda>l. source l = src \<and> target l = tgt)
           (inMemoryLinks ((incrementLinkWeight src tgt ^^ Suc n) kg)) = Some i"
    using incrementLinkWeight_keeps_index [OF fi] by simp
  ultimately show ?case by blast
qed


text \<open>
  Claim C1, amended. Take any link of the store and call \<open>incrementLinkWeight\<close> on
  its (source, target) pair any number of times. Each call sets the strength of the link
  to \<open>min 1 (strength + 0.1)\<close> when it is the first link of the store with that pair,
  and leaves its strength unchanged when an earlier link has the pair. So when its
  strength is at most 1 at the start, at every call it does not decrease and stays at most 1.
\<close>

theorem incrementLinkWeight_clamped:
  assumes "k < length (inMemoryLinks kg)"
  shows "let src = source (inMemoryLinks kg ! k); tgt = target (inMemoryLinks kg ! k);
             s = (\<lambda>n. strength (inMemoryLinks ((incrementLinkWeight src tgt ^^ n) kg) ! k))
         in s (Suc n) =
              (if findIndex (\<lambda>l. source l = src \<and> target l = tgt) (inMemoryLinks kg) = Some k
               then min 1 (s n + 0.1) else s n)
            \<and> (s 0 \<le> 1 \<longrightarrow> s n \<le> s (Suc n) \<and> s (Suc n) \<le> 1)"
proof -
  define src tgt where "src = source (inMemoryLinks kg ! k)" and "tgt = target (inMemoryLinks kg ! k)"
  define run where "run n = (incrementLinkWeight src tgt ^^ n) kg" for n
  define s where "s n = strength (inMemoryLinks (run n) ! k)" for n
  let ?P = "\<lambda>l. source l = src \<and> target l = tgt"
  have "?P (inMemoryLinks kg ! k)"
    by (simp add: src_def tgt_def)
  with assms obtain i where i: "findIndex ?P (inMemoryLinks kg) = Some i"
    using findIndex_exists [of k "inMemoryLinks kg" ?P] by blast
  have fi: "findIndex ?P (inMemoryLinks (run n)) = Some i" for n
    using incrementLinkWeight_iterate [OF i, of n] by (simp add: run_def)
  have len: "i < length (inMemoryLinks (run n))" for n
    using findIndex_SomeD [OF fi [of n]] by simp
  have step: "inMemoryLinks (run (Suc n)) =
      (inMemoryLinks (run n))[i := (inMemoryLinks (run n) ! i)
         \<lparr>strength := min 1 (strength (inMemoryLinks (run n) ! i) + 0.1)\<rparr>]" for n
    using incrementLinkWeight_found [OF fi [of n]] by (simp add: run_def)
  have first: "findIndex ?P (inMemoryLinks kg) = Some k \<longleftrightarrow> i = k"
    using i by simp
  have main: "s (Suc n) = (if i = k then min 1 (s n + 0.1) else s n)
      \<and> (s 0 \<le> 1 \<longrightarrow> s n \<le> s (Suc n) \<and> s (Suc n) \<le> 1)"
  proof (cases "i = k")
    case True
    have suc: "s (Suc m) = min 1 (s m + 0.1)" for m
      unfolding s_def step [of m] True [symmetric] using len [of m] by simp
    have le1: "s m \<le> 1" if "s 0 \<le> 1" for m
    proof (induction m)
      case 0
      then show ?case using that by simp
    next
      case (Suc m)
      then show ?case by (simp add: suc)
    qed
    show ?thesis using suc [of n] le1 [of n] True by (simp add: min_def)
  next
    case False
    have same: "s m = s 0" for m
      using incrementLinkWeight_iterate [OF i, of m] False by (simp add: s_def run_def)
    show ?thesis using same [of n] same [of "Suc n"] False by simp
  qed
  have "s (Suc n) =
      (if findIndex ?P (inMemoryLinks kg) = Some k then min 1 (s n + 0.1) else s n)
      \<and> (s 0 \<le> 1 \<longrightarrow> s n \<le> s (Suc n) \<and> s (Suc n) \<le> 1)"
    unfolding first by (rule main)
  then show ?thesis
    unfolding Let_def src_def tgt_def run_def s_def .
qed

theorem incrementLinkWeight_clamped_witness:
  "strength (inMemoryLinks (incrementLinkWeight ''a'' ''b'' (example_graph [95 / 100, 5 / 10])) ! 0) = 1
   \<and> strength (inMemoryLinks (incrementLinkWeight ''a'' ''b'' (example_graph [95 / 100, 5 / 10])) ! 1)
       = 5 / 10
   \<and> strength (inMemoryLinks (example_graph [95 / 100, 5 / 10]) ! 0)
       \<le> strength (inMemoryLinks (incrementLinkWeight ''a'' ''b'' (example_graph [95 / 100, 5 / 10])) ! 0)"
proof -
  have k0: "0 < length (inMemoryLinks (example_graph [95 / 100, 5 / 10]))"
    and k1: "1 < length (inMemoryLinks (example_graph [95 / 100, 5 / 10]))"
    by (simp_all add: example_graph_def)
  have s0: "strength (inMemoryLinks (incrementLinkWeight ''a'' ''b'' (example_graph [95 / 100, 5 / 10])) ! 0) = 1"
    using incrementLinkWeight_clamped [OF k0, of 0]
    by (simp add: Let_def example_graph_def example_link_def)
  have s1: "strength (inMemoryLinks (incrementLinkWeight ''a'' ''b'' (example_graph [95 / 100, 5 / 10])) ! 1)
      = 5 / 10"
    using incrementLinkWeight_clamped [OF k1, of 0]
    by (simp add: Let_def example_graph_def example_link_def)
  have "strength (inMemoryLinks (example_graph [95 / 100, 5 / 10]) ! 0) \<le> 1"
    by (simp add: example_graph_def example_link_def)
  with s0 s1 show ?thesis by simp
qed

text \<open>
  Claim C1, as stated, fails twice. A link update of strength 2 is stored with strength 2,
  and the call on its pair lowers the strength to 1. Of two links with the same pair the
  call strengthens the first and leaves the second at its strength.
\<close>

theorem incrementLinkWeight_counterexample:
  "(case applyUpdates [(1000, link_update ''a'' ''b'' (Some 2))] emptyGraph of
      Inl e \<Rightarrow> False
    | Inr kg \<Rightarrow>
        strength (inMemoryLinks kg ! 0) = 2 \<and>
        strength (inMemoryLinks (incrementLinkWeight ''a'' ''b'' kg) ! 0) = 1)
   \<and> (case applyUpdates [(1000, link_update ''a'' ''b'' (Some (5 / 10))),
                          (1001, link_update ''a'' ''b'' (Some (5 / 10)))] emptyGraph of
      Inl e \<Rightarrow> False
    | Inr kg \<Rightarrow>
        map strength (inMemoryLinks kg) = [5 / 10, 5 / 10] \<and>
        map strength (inMemoryLinks (incrementLinkWeight ''a'' ''b'' kg)) = [6 / 10, 5 / 10])"
  by (simp add: applyUpdate_def handleLinkUpdate_def link_update_def empty_data_def
      emptyGraph_def incrementLinkWeight_def Let_def)

section \<open>Calls that find no link\<close>

lemma incrementLinkWeight_absent:
  "\<forall>l\<in>set (inMemoryLinks kg). \<not> (source l = src \<and> target l = tgt) \<Longrightarrow>
   incrementLinkWeight src tgt kg = kg"
  using findIndex_None_iff [of "\<lambda>l. source l = src \<and> target l = tgt" "inMemoryLinks kg"]
  by (simp add: incrementLinkWeight_def)

lemma removeLink_absent:
  "\<forall>l\<in>set (inMemoryLinks kg). link_id l \<noteq> linkId \<Longrightarrow> removeLink linkId kg = kg"
  using findIndex_None_iff [of "\<lambda>l. link_id l = linkId" "inMemoryLinks kg"]
  by (simp add: removeLink_def)

lemma removeLink_idempotent_unique:
  assumes "length (filter (\<lambda>l. link_id l = linkId) (inMemoryLinks kg)) \<le> 1"
  shows "removeLink linkId (removeLink linkId kg) = removeLink linkId kg"
proof (cases "findIndex (\<lambda>l. link_id l = linkId) (inMemoryLinks kg)")
  case None
  then show ?thesis by (simp add: removeLink_def)
next
  case (Some i)
  let ?P = "\<lambda>l. link_id l = linkId"
  let ?ls = "inMemoryLinks kg"
  from findIndex_SomeD [OF Some] have i: "i < length ?ls" "?P (?ls ! i)" by simp_all
  have d: "?ls = take i ?ls @ ?ls ! i # drop (Suc i) ?ls"
    using i(1) by (rule id_take_nth_drop)
  have "filter ?P ?ls = filter ?P (take i ?ls @ ?ls ! i # drop (Suc i) ?ls)"
    by (rule arg_cong [where f = "filter ?P", OF d])
  also have "\<dots> = filter ?P (take i ?ls) @ ?ls ! i # filter ?P (drop (Suc i) ?ls)"
    using i(2) by simp
  finally have "length (filter ?P ?ls)
      = length (filter ?P (take i ?ls)) + Suc (length (filter ?P (drop (Suc i) ?ls)))"
    by simp
  with assms have "filter ?P (take i ?ls) = []" "filter ?P (drop (Suc i) ?ls) = []"
    by simp_all
  then have none: "\<forall>l\<in>set (take i ?ls @ drop (Suc i) ?ls). link_id l \<noteq> linkId"
    by (auto simp: filter_empty_conv)
  have rm: "removeLink linkId kg = kg\<lparr>inMemoryLinks := take i ?ls @ drop (Suc i) ?ls\<rparr>"
    using Some by (simp add: removeLink_def)
  show ?thesis
    unfolding rm using none by (intro removeLink_absent) simp
qed

section \<open>Identifiers taken from the clock\<close>

lemma digit_value: "k < 10 \<Longrightarrow> (of_char (''0123456789'' ! k) :: nat) = 48 + k"
proof -
  assume "k < 10"
  then have "k = 0 \<or> k = Suc 0 \<or> k = Suc (Suc 0) \<or> k = Suc (Suc (Suc 0))
    \<or> k = Suc (Suc (Suc (Suc 0))) \<or> k = Suc (Suc (Suc (Suc (Suc 0))))
    \<or> k = Suc (Suc (Suc (Suc (Suc (Suc 0))))) \<or> k = Suc (Suc (Suc (Suc (Suc (Suc (Suc 0))))))
    \<or> k = Suc (Suc (Suc (Suc (Suc (Suc (Suc (Suc 0)))))))
    \<or> k = Suc (Suc (Suc (Suc (Suc (Suc (Suc (Suc (Suc 0))))))))"
    by arith
  then show ?thesis by (elim disjE) simp_all
qed

lemma decimal_value: "fold (\<lambda>c acc. acc * 10 + (of_char c - 48)) (decimal n) 0 = n"
proof (induction n rule: decimal.induct)
  case (1 n)
  show ?case
  proof (cases "n < 10")
    case True
    then have "decimal n = [''0123456789'' ! n]"
      by (subst decimal.simps) simp
    then show ?thesis using True by (simp add: digit_value)
  next
    case False
    then have "decimal n = decimal (n div 10) @ [''0123456789'' ! (n mod 10)]"
      by (subst decimal.simps) simp
    then show ?thesis using False 1 by (simp add: digit_value)
  qed
qed



lemma decimal_inj:
  assumes "decimal n = decimal m"
  shows "n = m"
proof -
  have "n = fold (\<lambda>c acc. acc * 10 + (of_char c - 48)) (decimal n) 0"
    by (rule decimal_value [symmetric])
  also have "\<dots> = fold (\<lambda>c acc. acc * 10 + (of_char c - 48)) (decimal m) 0"
    by (simp only: assms)
  also have "\<dots> = m"
    by (rule decimal_value)
  finally show ?thesis .
qed

lemma handleNoteUpdate_fresh:
  assumes "\<not> Map_has (inMemoryNodes kg) (''note_'' @ decimal now)"
  shows "map fst (inMemoryNodes (handleNoteUpdate now u kg))
           = map fst (inMemoryNodes kg) @ [''note_'' @ decimal now]"
  using assms by (simp add: handleNoteUpdate_def Let_def Map_set_absent)

lemma applyUpdates_notes_distinct_times:
  assumes "distinct (map fst tus)"
    and "\<forall>(t, u)\<in>set tus. utype u = T_note \<and> \<not> Map_has (inMemoryNodes kg) (''note_'' @ decimal t)"
  shows "\<exists>kg'. applyUpdates tus kg = Inr kg'
           \<and> map fst (inMemoryNodes kg')
               = map fst (inMemoryNodes kg) @ map (\<lambda>(t, u). ''note_'' @ decimal t) tus"
  using assms
proof (induction tus arbitrary: kg)
  case Nil
  show ?case by simp
next
  case (Cons tu tus)
  obtain t u where tu: "tu = (t, u)" by (cases tu)
  from Cons.prems tu have is_note: "utype u = T_note"
    and fresh: "\<not> Map_has (inMemoryNodes kg) (''note_'' @ decimal t)" by simp_all
  define kg1 where "kg1 = handleNoteUpdate t u kg"
  have keys1: "map fst (inMemoryNodes kg1) = map fst (inMemoryNodes kg) @ [''note_'' @ decimal t]"
    unfolding kg1_def using fresh by (rule handleNoteUpdate_fresh)
  have "\<forall>(t', u')\<in>set tus. utype u' = T_note
      \<and> \<not> Map_has (inMemoryNodes kg1) (''note_'' @ decimal t')"
  proof (clarify, rule conjI)
    fix t' u' assume mem: "(t', u') \<in> set tus"
    with Cons.prems(2) show "utype u' = T_note" by auto
    from mem Cons.prems(1) tu have "t' \<noteq> t" by force
    then have "decimal t' \<noteq> decimal t" using decimal_inj by blast
    moreover from mem Cons.prems(2)
    have "\<not> Map_has (inMemoryNodes kg) (''note_'' @ decimal t')" by auto
    ultimately show "\<not> Map_has (inMemoryNodes kg1) (''note_'' @ decimal t')"
      using keys1 by (simp add: Map_has_iff set_map [symmetric] del: set_map)
  qed
  moreover have "distinct (map fst tus)" using Cons.prems(1) by simp
  ultimately obtain kg' where kg': "applyUpdates tus kg1 = Inr kg'"
    "map fst (inMemoryNodes kg')
       = map fst (inMemoryNodes kg1) @ map (\<lambda>(t, u). ''note_'' @ decimal t) tus"
    using Cons.IH [of kg1] by blast
  have "applyUpdates (tu # tus) kg = Inr kg'"
    using is_note by (simp add: tu applyUpdate_def kg1_def [symmetric] kg'(1))
  moreover have "map fst (inMemoryNodes kg')
      = map fst (inMemoryNodes kg) @ map (\<lambda>(t, u). ''note_'' @ decimal t) (tu # tus)"
    by (simp add: kg'(2) keys1 tu)
  ultimately show ?case by blast
qed

text \<open>
  Claim C7. Two note updates handled within the same millisecond get the same id, and the
  second replaces the first: the batch of two notes leaves one node.
\<close>

theorem applyUpdates_notes_same_millisecond:
  "applyUpdates [(now, u1\<lparr>utype := T_note\<rparr>), (now, u2\<lparr>utype := T_note\<rparr>)] emptyGraph =
     Inr \<lparr>inMemoryNodes =
            [(''note_'' @ decimal now,
              \<lparr>node_id = ''note_'' @ decimal now, node_type = ''Note'',
               properties = DataProps (data u2), createdAt = now, updatedAt = now\<rparr>)],
          inMemoryLinks = []\<rparr>"
  by (simp add: applyUpdate_def handleNoteUpdate_def emptyGraph_def Let_def)

text \<open>
  Claim C8. Two link updates handled within the same millisecond get the same id; removing
  that id once leaves the second link, removing it a second time removes that one too.
\<close>

theorem removeLink_twice_same_millisecond:
  "(case applyUpdates [(now, u1\<lparr>utype := T_link\<rparr>), (now, u2\<lparr>utype := T_link\<rparr>)] emptyGraph of
      Inl e \<Rightarrow> False
    | Inr kg \<Rightarrow>
        map link_id (inMemoryLinks kg) = [''link_'' @ decimal now, ''link_'' @ decimal now] \<and>
        length (inMemoryLinks (removeLink (''link_'' @ decimal now) kg)) = 1 \<and>
        inMemoryLinks (removeLink (''link_'' @ decimal now)
          (removeLink (''link_'' @ decimal now) kg)) = [])"
  by (simp add: applyUpdate_def handleLinkUpdate_def emptyGraph_def removeLink_def Let_def)

section \<open>Pattern extraction\<close>

text \<open>
  Two activities, in the order of the log: when they are within five minutes of each other
  the pattern has frequency 1 and its lastAccessed is the timestamp of the first of them
  (or the epoch); the timestamp of the second activity is not used.
\<close>

lemma extractPatterns_two_activities:
  "map (\<lambda>p. (frequency p, lastAccessed p)) (extractPatterns [a1, a2]) =
     (if \<bar>timestamp a1 - timestamp a2\<bar> < 5 * 60 * 1000 then [(1, max 0 (timestamp a1))] else [])"
  by (simp add: extractPatterns_def upt_rec pair_step_def Map_get_def Let_def)

text \<open>
  Claim C3. On the activities n1 at t0, n2 four minutes later and n3 ten minutes after t0,
  the one pattern is (n1, n2) with frequency 1; its lastAccessed is the timestamp of the
  first activity of the pair (or the epoch, if that is later), not the later timestamp.
\<close>

theorem extractPatterns_window_example:
  "extractPatterns
     [\<lparr>noteId = ''n1'', timestamp = t0\<rparr>,
      \<lparr>noteId = ''n2'', timestamp = t0 + 4 * 60 * 1000\<rparr>,
      \<lparr>noteId = ''n3'', timestamp = t0 + 10 * 60 * 1000\<rparr>]
   = [\<lparr>sourceNote = Some ''n1'', targetNote = Some ''n2'', frequency = 1,
       lastAccessed = max 0 t0\<rparr>]"
  by (simp add: extractPatterns_def upt_rec pair_step_def js_sort_def Map_get_def
      split_colons_def nth_opt_def Let_def)

section \<open>Tag updates\<close>

lemma tag_step_cases:
  "tag_step now t kg =
     (if Map_has (inMemoryNodes kg) (''tag_'' @ t) then kg
      else kg\<lparr>inMemoryNodes := inMemoryNodes kg @ [(''tag_'' @ t, tagNode now t)]\<rparr>)"
  by (simp add: tag_step_def Let_def Map_set_absent) (simp add: tagNode_def)

lemma fold_tag_step_noop:
  "(\<forall>t\<in>set tags. Map_has (inMemoryNodes kg) (''tag_'' @ t)) \<Longrightarrow> fold (tag_step now) tags kg = kg"
  by (induction tags) (simp_all add: tag_step_cases)

lemma fold_tag_step:
  "\<exists>new. inMemoryNodes (fold (tag_step now) tags kg) = inMemoryNodes kg @ new
     \<and> inMemoryLinks (fold (tag_step now) tags kg) = inMemoryLinks kg
     \<and> distinct (map fst new)
     \<and> fst ` set new = (\<lambda>t. ''tag_'' @ t) ` {t \<in> set tags. \<not> Map_has (inMemoryNodes kg) (''tag_'' @ t)}
     \<and> (\<forall>(k, n) \<in> set new. \<exists>t\<in>set tags. k = ''tag_'' @ t \<and> n = tagNode now t)"
proof (induction tags arbitrary: kg)
  case Nil
  show ?case by simp
next
  case (Cons t ts)
  show ?case
  proof (cases "Map_has (inMemoryNodes kg) (''tag_'' @ t)")
    case True
    from Cons.IH [of kg] obtain new where new:
      "inMemoryNodes (fold (tag_step now) ts kg) = inMemoryNodes kg @ new"
      "inMemoryLinks (fold (tag_step now) ts kg) = inMemoryLinks kg"
      "distinct (map fst new)"
      "fst ` set new = (\<lambda>t. ''tag_'' @ t) ` {t \<in> set ts. \<not> Map_has (inMemoryNodes kg) (''tag_'' @ t)}"
      "\<forall>(k, n) \<in> set new. \<exists>t\<in>set ts. k = ''tag_'' @ t \<and> n = tagNode now t"
      by blast
    have "{t' \<in> set (t # ts). \<not> Map_has (inMemoryNodes kg) (''tag_'' @ t')}
        = {t' \<in> set ts. \<not> Map_has (inMemoryNodes kg) (''tag_'' @ t')}"
      using True by auto
    moreover have "fold (tag_step now) (t # ts) kg = fold (tag_step now) ts kg"
      using True tag_step_cases [of now t kg] by simp
    moreover have "\<forall>(k, n) \<in> set new. \<exists>t'\<in>set (t # ts). k = ''tag_'' @ t' \<and> n = tagNode now t'"
      using new(5) by auto
    ultimately show ?thesis
      using new(1-4) by (intro exI [of _ new]) simp
  next
    case False
    define kg1 where "kg1 = kg\<lparr>inMemoryNodes := inMemoryNodes kg @ [(''tag_'' @ t, tagNode now t)]\<rparr>"
    have has1: "Map_has (inMemoryNodes kg1) k \<longleftrightarrow> Map_has (inMemoryNodes kg) k \<or> k = ''tag_'' @ t" for k
      by (auto simp: kg1_def Map_has_iff)
    from Cons.IH [of kg1] obtain new where new:
      "inMemoryNodes (fold (tag_step now) ts kg1) = inMemoryNodes kg1 @ new"
      "inMemoryLinks (fold (tag_step now) ts kg1) = inMemoryLinks kg1"
      "distinct (map fst new)"
      "fst ` set new = (\<lambda>t. ''tag_'' @ t) ` {t \<in> set ts. \<not> Map_has (inMemoryNodes kg1) (''tag_'' @ t)}"
      "\<forall>(k, n) \<in> set new. \<exists>t\<in>set ts. k = ''tag_'' @ t \<and> n = tagNode now t"
      by blast
    let ?new = "(''tag_'' @ t, tagNode now t) # new"
    have step: "fold (tag_step now) (t # ts) kg = fold (tag_step now) ts kg1"
      using False tag_step_cases [of now t kg] by (simp add: kg1_def)
    have 1: "inMemoryNodes (fold (tag_step now) (t # ts) kg) = inMemoryNodes kg @ ?new"
      unfolding step new(1) by (simp add: kg1_def)
    have 2: "inMemoryLinks (fold (tag_step now) (t # ts) kg) = inMemoryLinks kg"
      unfolding step new(2) by (simp add: kg1_def)
    have 3: "distinct (map fst ?new)"
      using new(3) new(4) by (auto simp: has1)
    have 4: "fst ` set ?new =
        (\<lambda>t. ''tag_'' @ t) ` {t' \<in> set (t # ts). \<not> Map_has (inMemoryNodes kg) (''tag_'' @ t')}"
      using False new(4) by (auto simp: has1)
    have 5: "\<forall>(k, n) \<in> set ?new. \<exists>t'\<in>set (t # ts). k = ''tag_'' @ t' \<and> n = tagNode now t'"
      using new(5) by auto
    from 1 2 3 4 5 show ?thesis by blast
  qed
qed


text \<open>
  Claim C4, amended. A tag update creates, for each tag of \<open>data.tags\<close>, a Tag node
  keyed by \<open>tag_\<close> followed by the tag string as given (no case normalisation) if and
  only if no node with that key exists yet: the new nodes have pairwise distinct keys, one
  for each distinct tag string whose key was absent, and the existing nodes and all links
  are unchanged. Applying the same tag update twice in a batch gives the same store as
  applying it once.
\<close>

theorem handleTagUpdate_dedup:
  assumes "utype u = T_tag" and "d_tags (data u) = Some tags"
  shows "\<exists>kg' new. applyUpdates [(t1, u)] kg = Inr kg'
     \<and> applyUpdates [(t1, u), (t2, u)] kg = Inr kg'
     \<and> inMemoryLinks kg' = inMemoryLinks kg
     \<and> inMemoryNodes kg' = inMemoryNodes kg @ new
     \<and> distinct (map fst new)
     \<and> fst ` set new = (\<lambda>t. ''tag_'' @ t) ` {t \<in> set tags. \<not> Map_has (inMemoryNodes kg) (''tag_'' @ t)}
     \<and> (\<forall>(k, n) \<in> set new. \<exists>t\<in>set tags. k = ''tag_'' @ t \<and> n = tagNode t1 t)"
proof -
  define kg' where "kg' = fold (tag_step t1) tags kg"
  have ap: "applyUpdate t u g = Inr (fold (tag_step t) tags g)" for t g
    using assms by (simp add: applyUpdate_def handleTagUpdate_def)
  from fold_tag_step [of t1 tags kg] obtain new where new:
    "inMemoryNodes kg' = inMemoryNodes kg @ new"
    "inMemoryLinks kg' = inMemoryLinks kg"
    "distinct (map fst new)"
    "fst ` set new = (\<lambda>t. ''tag_'' @ t) ` {t \<in> set tags. \<not> Map_has (inMemoryNodes kg) (''tag_'' @ t)}"
    "\<forall>(k, n) \<in> set new. \<exists>t\<in>set tags. k = ''tag_'' @ t \<and> n = tagNode t1 t"
    unfolding kg'_def by blast
  have "Map_has (inMemoryNodes kg') (''tag_'' @ t)" if "t \<in> set tags" for t
  proof (cases "Map_has (inMemoryNodes kg) (''tag_'' @ t)")
    case True
    then show ?thesis by (auto simp: new(1) Map_has_iff)
  next
    case False
    with that have "''tag_'' @ t \<in> fst ` set new"
      unfolding new(4) by blast
    then show ?thesis by (auto simp: new(1) Map_has_iff)
  qed
  then have again: "fold (tag_step t2) tags kg' = kg'"
    by (intro fold_tag_step_noop) blast
  have one: "applyUpdates [(t1, u)] kg = Inr kg'"
    by (simp add: ap kg'_def)
  have two: "applyUpdates [(t1, u), (t2, u)] kg = Inr kg'"
    using again by (simp add: ap kg'_def)
  from one two new show ?thesis by blast
qed

theorem handleTagUpdate_dedup_witness:
  "applyUpdates [(1, tag_update [''AI'', ''ai'', ''AI'']), (2, tag_update [''AI'', ''ai'', ''AI''])] emptyGraph
     = applyUpdates [(1, tag_update [''AI'', ''ai'', ''AI''])] emptyGraph
   \<and> map_sum id (\<lambda>kg. map fst (inMemoryNodes kg))
       (applyUpdates [(1, tag_update [''AI'', ''ai'', ''AI''])] emptyGraph) = Inr [''tag_AI'', ''tag_ai'']"
proof -
  have u: "utype (tag_update [''AI'', ''ai'', ''AI'']) = T_tag"
    by (simp add: tag_update_def)
  have d: "d_tags (data (tag_update [''AI'', ''ai'', ''AI''])) = Some [''AI'', ''ai'', ''AI'']"
    by (simp add: tag_update_def)
  have ev: "map_sum id (\<lambda>kg. map fst (inMemoryNodes kg))
       (applyUpdates [(1, tag_update [''AI'', ''ai'', ''AI''])] emptyGraph) = Inr [''tag_AI'', ''tag_ai'']"
    by (simp add: applyUpdate_def handleTagUpdate_def tag_update_def tag_step_def tagNode_def
        emptyGraph_def Map_has_def Let_def)
  from handleTagUpdate_dedup [OF u d, of 1 emptyGraph 2] obtain kg' where
    "applyUpdates [(1, tag_update [''AI'', ''ai'', ''AI''])] emptyGraph = Inr kg'"
    "applyUpdates [(1, tag_update [''AI'', ''ai'', ''AI'']), (2, tag_update [''AI'', ''ai'', ''AI''])] emptyGraph = Inr kg'"
    by blast
  then have "applyUpdates [(1, tag_update [''AI'', ''ai'', ''AI'']), (2, tag_update [''AI'', ''ai'', ''AI''])] emptyGraph
     = applyUpdates [(1, tag_update [''AI'', ''ai'', ''AI''])] emptyGraph"
    by (simp only:)
  with ev show ?thesis by (rule conjI [rotated])
qed

lemma toLowerCase_AI: "toLowerCase ''AI'' = ''ai''" "toLowerCase ''ai'' = ''ai''"
  by (simp_all add: toLowerCase_def lowerChar_def)

text \<open>
  Claim C4, as stated, fails: the tags AI and ai have the same lowercased form, and the
  update creates two Tag nodes for them, keyed with the strings as given.
\<close>

theorem handleTagUpdate_case_counterexample:
  "(case applyUpdates [(1000, tag_update [''AI'', ''ai''])] emptyGraph of
      Inl e \<Rightarrow> False
    | Inr kg \<Rightarrow> map fst (inMemoryNodes kg) = [''tag_AI'', ''tag_ai'']
               \<and> toLowerCase ''AI'' = toLowerCase ''ai'')"
  unfolding toLowerCase_AI
  by (simp add: applyUpdate_def handleTagUpdate_def tag_update_def tag_step_def tagNode_def
        emptyGraph_def Map_has_def Let_def)

section \<open>Reconciling a batch\<close>

lemma dedup_step_filter:
  assumes "\<And>u. Q u \<Longrightarrow> utype u \<noteq> T_tag"
  shows "filter Q (snd (dedup_step u (seen, kept))) = filter Q kept @ filter Q [u]"
proof (cases "utype u = T_tag")
  case True
  have 1: "\<not> Q u" using assms True by blast
  have "utype (u\<lparr>data := (data u)\<lparr>d_tags := map_option js_sort (d_tags (data u))\<rparr>\<rparr>) = T_tag"
    using True by simp
  then have 2: "\<not> Q (u\<lparr>data := (data u)\<lparr>d_tags := map_option js_sort (d_tags (data u))\<rparr>\<rparr>)"
    using assms by blast
  show ?thesis
    using True 1 2 by (simp add: dedup_step_def Let_def)
next
  case False
  then show ?thesis by (simp add: dedup_step_def)
qed

lemma fold_dedup_step_filter:
  assumes "\<And>u. Q u \<Longrightarrow> utype u \<noteq> T_tag"
  shows "filter Q (snd (fold dedup_step us (seen, kept))) = filter Q kept @ filter Q us"
proof (induction us arbitrary: seen kept)
  case Nil
  show ?case by simp
next
  case (Cons u us)
  obtain seen' kept' where st: "dedup_step u (seen, kept) = (seen', kept')"
    by (cases "dedup_step u (seen, kept)")
  have "filter Q kept' = filter Q kept @ filter Q [u]"
    using dedup_step_filter [of Q u seen kept] assms by (simp add: st)
  then show ?case
    using Cons.IH [of seen' kept'] by (simp add: st)
qed

lemma js_gt_step: "\<not> js_gt x e \<Longrightarrow> js_gt u e \<Longrightarrow> \<not> js_gt x u"
  by (cases x; cases e; cases u) auto

lemma js_gt_irrefl: "\<not> js_gt x x"
  by (cases x) auto


lemma merge_step_other: "utype u \<noteq> T_link \<Longrightarrow> merge_step u (lm, nl) = (lm, nl @ [u])"
  by (simp add: merge_step_def)

lemma merge_step_link:
  assumes link: "utype u = T_link"
    and dist: "distinct (map fst lm)"
    and keyed: "\<forall>(k, v)\<in>set lm. utype v = T_link \<and> d_target (data v) = k"
    and dom: "\<forall>x\<in>S. \<exists>v. map_of lm (d_target (data x)) = Some v
                \<and> \<not> js_gt (d_strength (data x)) (d_strength (data v))"
  shows "\<exists>lm'. merge_step u (lm, nl) = (lm', nl)
     \<and> distinct (map fst lm')
     \<and> (\<forall>(k, v)\<in>set lm'. utype v = T_link \<and> d_target (data v) = k)
     \<and> fst ` set lm' = insert (d_target (data u)) (fst ` set lm)
     \<and> snd ` set lm' \<subseteq> insert u (snd ` set lm)
     \<and> (\<forall>x\<in>insert u S. \<exists>v. map_of lm' (d_target (data x)) = Some v
                \<and> \<not> js_gt (d_strength (data x)) (d_strength (data v)))"
proof -
  define t where "t = d_target (data u)"
  let ?set = "Map_set lm t u"
  have set_dist: "distinct (map fst ?set)"
    using dist by (rule distinct_Map_set)
  have set_keyed: "\<forall>(k, v)\<in>set ?set. utype v = T_link \<and> d_target (data v) = k"
    using keyed link entries_Map_set [of _ lm t u] by (fastforce simp: t_def)
  have set_keys: "fst ` set ?set = insert t (fst ` set lm)"
    by (rule keys_Map_set)
  have set_vals: "snd ` set ?set \<subseteq> insert u (snd ` set lm)"
    using entries_Map_set [of _ lm t u] by force
  have set_dom: "\<forall>x\<in>insert u S. \<exists>v. map_of ?set (d_target (data x)) = Some v
                \<and> \<not> js_gt (d_strength (data x)) (d_strength (data v))"
    if old: "\<And>x v. x \<in> S \<Longrightarrow> map_of lm t = Some v \<Longrightarrow> d_target (data x) = t
                 \<Longrightarrow> \<not> js_gt (d_strength (data x)) (d_strength (data v))
                 \<Longrightarrow> \<not> js_gt (d_strength (data x)) (d_strength (data u))"
  proof
    fix x assume x: "x \<in> insert u S"
    show "\<exists>v. map_of ?set (d_target (data x)) = Some v
                \<and> \<not> js_gt (d_strength (data x)) (d_strength (data v))"
    proof (cases "d_target (data x) = t")
      case True
      have "\<not> js_gt (d_strength (data x)) (d_strength (data u))"
      proof (cases "x = u")
        case True
        then show ?thesis by (simp add: js_gt_irrefl)
      next
        case False
        with x have xs: "x \<in> S" by simp
        with dom obtain v where "map_of lm (d_target (data x)) = Some v"
          "\<not> js_gt (d_strength (data x)) (d_strength (data v))" by blast
        with old [OF xs] True show ?thesis by simp
      qed
      with True show ?thesis by (simp add: map_of_Map_set)
    next
      case False
      then have "x \<noteq> u" by (auto simp: t_def)
      with x have "x \<in> S" by simp
      with dom False show ?thesis by (simp add: map_of_Map_set)
    qed
  qed
  show ?thesis
  proof (cases "map_of lm t")
    case None
    then have ms: "merge_step u (lm, nl) = (?set, nl)"
      using link by (simp add: merge_step_def Map_get_def Let_def t_def)
    have "\<forall>x\<in>insert u S. \<exists>v. map_of ?set (d_target (data x)) = Some v
                \<and> \<not> js_gt (d_strength (data x)) (d_strength (data v))"
      by (rule set_dom) (simp add: None)
    with ms set_dist set_keyed set_keys set_vals show ?thesis
      unfolding t_def by blast
  next
    case (Some e)
    show ?thesis
    proof (cases "js_gt (d_strength (data u)) (d_strength (data e))")
      case True
      then have ms: "merge_step u (lm, nl) = (?set, nl)"
        using link Some by (simp add: merge_step_def Map_get_def Let_def t_def)
      have step: "\<not> js_gt (d_strength (data x)) (d_strength (data u))"
        if "x \<in> S" "map_of lm t = Some v" "d_target (data x) = t"
          "\<not> js_gt (d_strength (data x)) (d_strength (data v))" for x v
      proof -
        from that(2) Some have "v = e" by simp
        with that(4) show ?thesis
          using js_gt_step [OF _ True, of "d_strength (data x)"] by simp
      qed
      have "\<forall>x\<in>insert u S. \<exists>v. map_of ?set (d_target (data x)) = Some v
                \<and> \<not> js_gt (d_strength (data x)) (d_strength (data v))"
        by (rule set_dom) (erule step; assumption)
      with ms set_dist set_keyed set_keys set_vals show ?thesis
        unfolding t_def by blast
    next
      case False
      then have ms: "merge_step u (lm, nl) = (lm, nl)"
        using link Some by (simp add: merge_step_def Map_get_def Let_def t_def)
      have "t \<in> fst ` set lm"
        using Some by (metis map_of_eq_None_iff option.distinct(1))
      then have keys: "fst ` set lm = insert (d_target (data u)) (fst ` set lm)"
        by (auto simp: t_def)
      have "\<forall>x\<in>insert u S. \<exists>v. map_of lm (d_target (data x)) = Some v
                \<and> \<not> js_gt (d_strength (data x)) (d_strength (data v))"
        using dom Some False by (auto simp: t_def)
      with ms dist keyed keys show ?thesis
        by blast
    qed
  qed
qed

lemma fold_merge_step:
  assumes "distinct (map fst lm)"
    and "\<forall>(k, v)\<in>set lm. utype v = T_link \<and> d_target (data v) = k"
    and "\<forall>x\<in>S. \<exists>v. map_of lm (d_target (data x)) = Some v
                \<and> \<not> js_gt (d_strength (data x)) (d_strength (data v))"
  shows "\<exists>lm'. fold merge_step us (lm, nl) = (lm', nl @ filter (\<lambda>u. utype u \<noteq> T_link) us)
     \<and> distinct (map fst lm')
     \<and> (\<forall>(k, v)\<in>set lm'. utype v = T_link \<and> d_target (data v) = k)
     \<and> fst ` set lm' = fst ` set lm \<union> (\<lambda>u. d_target (data u)) ` {u \<in> set us. utype u = T_link}
     \<and> snd ` set lm' \<subseteq> snd ` set lm \<union> {u \<in> set us. utype u = T_link}
     \<and> (\<forall>x\<in>S \<union> {u \<in> set us. utype u = T_link}. \<exists>v. map_of lm' (d_target (data x)) = Some v
                \<and> \<not> js_gt (d_strength (data x)) (d_strength (data v)))"
  using assms
proof (induction us arbitrary: lm nl S)
  case Nil
  show ?case
    using Nil by (intro exI [of _ lm]) simp
next
  case (Cons u us)
  show ?case
  proof (cases "utype u = T_link")
    case True
    from merge_step_link [OF True Cons.prems, of nl] obtain lm1 where lm1:
      "merge_step u (lm, nl) = (lm1, nl)"
      "distinct (map fst lm1)"
      "\<forall>(k, v)\<in>set lm1. utype v = T_link \<and> d_target (data v) = k"
      "fst ` set lm1 = insert (d_target (data u)) (fst ` set lm)"
      "snd ` set lm1 \<subseteq> insert u (snd ` set lm)"
      "\<forall>x\<in>insert u S. \<exists>v. map_of lm1 (d_target (data x)) = Some v
                \<and> \<not> js_gt (d_strength (data x)) (d_strength (data v))"
      by (elim exE conjE)
    from Cons.IH [OF lm1(2) lm1(3) lm1(6), of nl] obtain lm' where lm':
      "fold merge_step us (lm1, nl) = (lm', nl @ filter (\<lambda>u. utype u \<noteq> T_link) us)"
      "distinct (map fst lm')"
      "\<forall>(k, v)\<in>set lm'. utype v = T_link \<and> d_target (data v) = k"
      "fst ` set lm' = fst ` set lm1 \<union> (\<lambda>u. d_target (data u)) ` {u \<in> set us. utype u = T_link}"
      "snd ` set lm' \<subseteq> snd ` set lm1 \<union> {u \<in> set us. utype u = T_link}"
      "\<forall>x\<in>insert u S \<union> {u \<in> set us. utype u = T_link}. \<exists>v. map_of lm' (d_target (data x)) = Some v
                \<and> \<not> js_gt (d_strength (data x)) (d_strength (data v))"
      by (elim exE conjE)
    have links: "{x \<in> set (u # us). utype x = T_link} = insert u {x \<in> set us. utype x = T_link}"
      using True by auto
    have 1: "fold merge_step (u # us) (lm, nl) = (lm', nl @ filter (\<lambda>u. utype u \<noteq> T_link) (u # us))"
      using True by (simp add: lm1(1) lm'(1))
    have 4: "fst ` set lm' = fst ` set lm \<union> (\<lambda>u. d_target (data u)) ` {x \<in> set (u # us). utype x = T_link}"
      unfolding links lm'(4) lm1(4) by simp
    have 5: "snd ` set lm' \<subseteq> snd ` set lm \<union> {x \<in> set (u # us). utype x = T_link}"
      unfolding links using lm'(5) lm1(5) by blast
    have 6: "\<forall>x\<in>S \<union> {x \<in> set (u # us). utype x = T_link}. \<exists>v. map_of lm' (d_target (data x)) = Some v
                \<and> \<not> js_gt (d_strength (data x)) (d_strength (data v))"
      unfolding links using lm'(6) by simp
    show ?thesis
      by (intro exI [of _ lm'] conjI) (fact 1 lm'(2) lm'(3) 4 5 6)+
  next
    case False
    from Cons.IH [OF Cons.prems, of "nl @ [u]"] obtain lm' where lm':
      "fold merge_step us (lm, nl @ [u]) = (lm', (nl @ [u]) @ filter (\<lambda>u. utype u \<noteq> T_link) us)"
      "distinct (map fst lm')"
      "\<forall>(k, v)\<in>set lm'. utype v = T_link \<and> d_target (data v) = k"
      "fst ` set lm' = fst ` set lm \<union> (\<lambda>u. d_target (data u)) ` {u \<in> set us. utype u = T_link}"
      "snd ` set lm' \<subseteq> snd ` set lm \<union> {u \<in> set us. utype u = T_link}"
      "\<forall>x\<in>S \<union> {u \<in> set us. utype u = T_link}. \<exists>v. map_of lm' (d_target (data x)) = Some v
                \<and> \<not> js_gt (d_strength (data x)) (d_strength (data v))"
      by (elim exE conjE)
    have links: "{x \<in> set (u # us). utype x = T_link} = {x \<in> set us. utype x = T_link}"
      using False by auto
    have 1: "fold merge_step (u # us) (lm, nl) = (lm', nl @ filter (\<lambda>u. utype u \<noteq> T_link) (u # us))"
      using False by (simp add: merge_step_other lm'(1))
    show ?thesis
      unfolding links
      by (intro exI [of _ lm'] conjI) (fact 1 lm'(2-6))+
  qed
qed

lemma resolveConflicts_eq:
  "\<exists>lm. resolveConflicts updates =
          filter (\<lambda>u. utype u \<noteq> T_link) (snd (fold dedup_step updates ([], []))) @ map snd lm
     \<and> distinct (map fst lm)
     \<and> (\<forall>(k, v)\<in>set lm. utype v = T_link \<and> d_target (data v) = k)
     \<and> snd ` set lm \<subseteq> {u \<in> set updates. utype u = T_link}
     \<and> (\<forall>x\<in>{u \<in> set updates. utype u = T_link}. \<exists>v. map_of lm (d_target (data x)) = Some v
                \<and> \<not> js_gt (d_strength (data x)) (d_strength (data v)))"
proof -
  define ds where "ds = snd (fold dedup_step updates ([], []))"
  have "filter (\<lambda>u. utype u = T_link) ds = filter (\<lambda>u. utype u = T_link) updates"
    unfolding ds_def using fold_dedup_step_filter [of "\<lambda>u. utype u = T_link" updates "[]" "[]"]
    by simp
  then have "set (filter (\<lambda>u. utype u = T_link) ds) = set (filter (\<lambda>u. utype u = T_link) updates)"
    by simp
  then have links: "{u \<in> set ds. utype u = T_link} = {u \<in> set updates. utype u = T_link}"
    by simp
  have a: "distinct (map fst ([] :: (string, KnowledgeGraphUpdate) js_map))"
    by simp
  have b: "\<forall>(k, v)\<in>set ([] :: (string, KnowledgeGraphUpdate) js_map).
      utype v = T_link \<and> d_target (data v) = k"
    by simp
  have c: "\<forall>x\<in>({} :: KnowledgeGraphUpdate set). \<exists>v.
      map_of ([] :: (string, KnowledgeGraphUpdate) js_map) (d_target (data x)) = Some v
        \<and> \<not> js_gt (d_strength (data x)) (d_strength (data v))"
    by simp
  from fold_merge_step [OF a b c, of ds "[]"]
  have "\<exists>lm. fold merge_step ds ([], []) = (lm, filter (\<lambda>u. utype u \<noteq> T_link) ds)
     \<and> distinct (map fst lm)
     \<and> (\<forall>(k, v)\<in>set lm. utype v = T_link \<and> d_target (data v) = k)
     \<and> fst ` set lm = (\<lambda>u. d_target (data u)) ` {u \<in> set ds. utype u = T_link}
     \<and> snd ` set lm \<subseteq> {u \<in> set ds. utype u = T_link}
     \<and> (\<forall>x\<in>{u \<in> set ds. utype u = T_link}. \<exists>v. map_of lm (d_target (data x)) = Some v
                \<and> \<not> js_gt (d_strength (data x)) (d_strength (data v)))"
    by simp
  then obtain lm where lm:
    "fold merge_step ds ([], []) = (lm, filter (\<lambda>u. utype u \<noteq> T_link) ds)"
    "distinct (map fst lm)"
    "\<forall>(k, v)\<in>set lm. utype v = T_link \<and> d_target (data v) = k"
    "fst ` set lm = (\<lambda>u. d_target (data u)) ` {u \<in> set ds. utype u = T_link}"
    "snd ` set lm \<subseteq> {u \<in> set ds. utype u = T_link}"
    "\<forall>x\<in>{u \<in> set ds. utype u = T_link}. \<exists>v. map_of lm (d_target (data x)) = Some v
                \<and> \<not> js_gt (d_strength (data x)) (d_strength (data v))"
    by (elim exE conjE)
  have 1: "resolveConflicts updates = filter (\<lambda>u. utype u \<noteq> T_link) ds @ map snd lm"
    by (simp add: resolveConflicts_def Let_def Map_values_def ds_def [symmetric] lm(1))
  have 4: "snd ` set lm \<subseteq> {u \<in> set updates. utype u = T_link}"
    using lm(5) unfolding links by simp
  have 5: "\<forall>x\<in>{u \<in> set updates. utype u = T_link}. \<exists>v. map_of lm (d_target (data x)) = Some v
                \<and> \<not> js_gt (d_strength (data x)) (d_strength (data v))"
    using lm(6) unfolding links by simp
  show ?thesis
    unfolding ds_def [symmetric]
    by (intro exI [of _ lm] conjI) (fact 1 lm(2) lm(3) 4 5)+
qed

text \<open>
  What the reconciler does on every batch, with the strengths compared as the code compares
  them: the link updates of the output have pairwise distinct targets and each is one of
  the link updates of the batch; every link update of the batch has its target
  represented by a retained link update that it is not greater than; and the updates that
  are neither tag nor link updates come out unchanged, in their original relative order.
\<close>

lemma resolveConflicts_link_merge:
  "distinct (map (\<lambda>u. d_target (data u)) (filter (\<lambda>u. utype u = T_link) (resolveConflicts updates)))
   \<and> set (filter (\<lambda>u. utype u = T_link) (resolveConflicts updates))
        \<subseteq> set (filter (\<lambda>u. utype u = T_link) updates)
   \<and> (\<forall>u\<in>set (filter (\<lambda>u. utype u = T_link) updates).
        \<exists>k\<in>set (filter (\<lambda>u. utype u = T_link) (resolveConflicts updates)).
          d_target (data k) = d_target (data u)
          \<and> \<not> js_gt (d_strength (data u)) (d_strength (data k)))
   \<and> filter (\<lambda>u. utype u \<noteq> T_tag \<and> utype u \<noteq> T_link) (resolveConflicts updates)
        = filter (\<lambda>u. utype u \<noteq> T_tag \<and> utype u \<noteq> T_link) updates"
proof -
  define ds where "ds = snd (fold dedup_step updates ([], []))"
  from resolveConflicts_eq [of updates] obtain lm where lm:
    "resolveConflicts updates = filter (\<lambda>u. utype u \<noteq> T_link) ds @ map snd lm"
    "distinct (map fst lm)"
    "\<forall>(k, v)\<in>set lm. utype v = T_link \<and> d_target (data v) = k"
    "snd ` set lm \<subseteq> {u \<in> set updates. utype u = T_link}"
    "\<forall>x\<in>{u \<in> set updates. utype u = T_link}. \<exists>v. map_of lm (d_target (data x)) = Some v
                \<and> \<not> js_gt (d_strength (data x)) (d_strength (data v))"
    unfolding ds_def by (elim exE conjE)
  have vals_link: "filter (\<lambda>u. utype u = T_link) (map snd lm) = map snd lm"
    using lm(3) by (auto simp: filter_id_conv)
  have out_links: "filter (\<lambda>u. utype u = T_link) (resolveConflicts updates) = map snd lm"
    by (simp add: lm(1) vals_link)
  have "map (\<lambda>u. d_target (data u)) (map snd lm) = map fst lm"
    using lm(3) by auto
  then have 1: "distinct (map (\<lambda>u. d_target (data u))
      (filter (\<lambda>u. utype u = T_link) (resolveConflicts updates)))"
    using lm(2) by (simp add: out_links del: map_map)
  have 2: "set (filter (\<lambda>u. utype u = T_link) (resolveConflicts updates))
        \<subseteq> set (filter (\<lambda>u. utype u = T_link) updates)"
    using lm(4) by (simp add: out_links)
  have 3: "\<forall>u\<in>set (filter (\<lambda>u. utype u = T_link) updates).
        \<exists>k\<in>set (filter (\<lambda>u. utype u = T_link) (resolveConflicts updates)).
          d_target (data k) = d_target (data u)
          \<and> \<not> js_gt (d_strength (data u)) (d_strength (data k))"
  proof
    fix u assume "u \<in> set (filter (\<lambda>u. utype u = T_link) updates)"
    then have "u \<in> {u \<in> set updates. utype u = T_link}" by simp
    with lm(5) obtain v where v: "map_of lm (d_target (data u)) = Some v"
      "\<not> js_gt (d_strength (data u)) (d_strength (data v))" by blast
    from v(1) have mem: "(d_target (data u), v) \<in> set lm"
      by (rule map_of_SomeD)
    with lm(3) have "d_target (data v) = d_target (data u)" by auto
    moreover from mem have "v \<in> set (map snd lm)" by force
    ultimately show "\<exists>k\<in>set (filter (\<lambda>u. utype u = T_link) (resolveConflicts updates)).
          d_target (data k) = d_target (data u)
          \<and> \<not> js_gt (d_strength (data u)) (d_strength (data k))"
      using v(2) unfolding out_links by blast
  qed
  have "filter (\<lambda>u. utype u \<noteq> T_tag \<and> utype u \<noteq> T_link) (map snd lm) = []"
    using lm(3) by (auto simp: filter_empty_conv)
  moreover have "filter (\<lambda>u. utype u \<noteq> T_tag \<and> utype u \<noteq> T_link) ds
      = filter (\<lambda>u. utype u \<noteq> T_tag \<and> utype u \<noteq> T_link) updates"
    unfolding ds_def
    using fold_dedup_step_filter [of "\<lambda>u. utype u \<noteq> T_tag \<and> utype u \<noteq> T_link" updates "[]" "[]"]
    by simp
  ultimately have 4: "filter (\<lambda>u. utype u \<noteq> T_tag \<and> utype u \<noteq> T_link) (resolveConflicts updates)
        = filter (\<lambda>u. utype u \<noteq> T_tag \<and> utype u \<noteq> T_link) updates"
    by (simp add: lm(1) conj_commute)
  from 1 2 3 4 show ?thesis by (intro conjI)
qed

lemma resolveConflicts_link_merge_example:
  "resolveConflicts [link_update ''a'' ''t'' (Some (3 / 10)), note_update ''x'',
                     link_update ''b'' ''t'' (Some (8 / 10))]
     = [note_update ''x'', link_update ''b'' ''t'' (Some (8 / 10))]
   \<and> filter (\<lambda>u. utype u \<noteq> T_tag \<and> utype u \<noteq> T_link)
       (resolveConflicts [link_update ''a'' ''t'' (Some (3 / 10)), note_update ''x'',
                          link_update ''b'' ''t'' (Some (8 / 10))]) = [note_update ''x'']"
proof -
  have "resolveConflicts [link_update ''a'' ''t'' (Some (3 / 10)), note_update ''x'',
                     link_update ''b'' ''t'' (Some (8 / 10))]
     = [note_update ''x'', link_update ''b'' ''t'' (Some (8 / 10))]"
    by (simp add: resolveConflicts_def dedup_step_def merge_step_def link_update_def
        note_update_def empty_data_def Map_get_def Map_values_def Let_def)
  moreover have "filter (\<lambda>u. utype u \<noteq> T_tag \<and> utype u \<noteq> T_link)
       (resolveConflicts [link_update ''a'' ''t'' (Some (3 / 10)), note_update ''x'',
                          link_update ''b'' ''t'' (Some (8 / 10))]) = [note_update ''x'']"
    using resolveConflicts_link_merge [of "[link_update ''a'' ''t'' (Some (3 / 10)), note_update ''x'',
                     link_update ''b'' ''t'' (Some (8 / 10))]"]
    by (simp add: link_update_def note_update_def)
  ultimately show ?thesis by (rule conjI)
qed

text \<open>
  So on a batch in which every link update carries a strength, the retained link update of
  a target has the highest strength among the link updates of that target.
\<close>

lemma resolveConflicts_link_merge_present:
  assumes "\<forall>u\<in>set updates. utype u = T_link \<longrightarrow> d_strength (data u) \<noteq> None"
  shows "\<forall>u\<in>set (filter (\<lambda>u. utype u = T_link) updates).
        \<exists>k\<in>set (filter (\<lambda>u. utype u = T_link) (resolveConflicts updates)).
          d_target (data k) = d_target (data u)
          \<and> the (d_strength (data u)) \<le> the (d_strength (data k))"
proof
  fix u assume u: "u \<in> set (filter (\<lambda>u. utype u = T_link) updates)"
  note merged = resolveConflicts_link_merge [of updates]
  have sub: "set (filter (\<lambda>u. utype u = T_link) (resolveConflicts updates))
        \<subseteq> set (filter (\<lambda>u. utype u = T_link) updates)"
    by (rule conjunct1 [OF conjunct2 [OF merged]])
  have "\<forall>u\<in>set (filter (\<lambda>u. utype u = T_link) updates).
        \<exists>k\<in>set (filter (\<lambda>u. utype u = T_link) (resolveConflicts updates)).
          d_target (data k) = d_target (data u)
          \<and> \<not> js_gt (d_strength (data u)) (d_strength (data k))"
    by (rule conjunct1 [OF conjunct2 [OF conjunct2 [OF merged]]])
  with u obtain k where k: "k \<in> set (filter (\<lambda>u. utype u = T_link) (resolveConflicts updates))"
    "d_target (data k) = d_target (data u)"
    "\<not> js_gt (d_strength (data u)) (d_strength (data k))"
    by blast
  from k(1) sub have "k \<in> set (filter (\<lambda>u. utype u = T_link) updates)" by blast
  with assms obtain b where b: "d_strength (data k) = Some b" by auto
  from u assms obtain a where a: "d_strength (data u) = Some a" by auto
  from k(3) have "a \<le> b" by (simp add: a b)
  then have "the (d_strength (data u)) \<le> the (d_strength (data k))" by (simp add: a b)
  with k(1) k(2) show "\<exists>k\<in>set (filter (\<lambda>u. utype u = T_link) (resolveConflicts updates)).
          d_target (data k) = d_target (data u)
          \<and> the (d_strength (data u)) \<le> the (d_strength (data k))"
    by blast
qed

text \<open>
  Claim C5. A link update without a strength is compared as \<open>undefined\<close>, and every
  comparison with it is false: as the first update of its target it is retained against
  strengths 0.5 and 0.9, and as a later one it is dropped against 0.5, although the store
  creates its link with strength 1.
\<close>

theorem resolveConflicts_missing_strength:
  "resolveConflicts [link_update ''a'' ''t'' None, link_update ''b'' ''t'' (Some (5 / 10)),
                     link_update ''c'' ''t'' (Some (9 / 10))]
     = [link_update ''a'' ''t'' None]
   \<and> resolveConflicts [link_update ''b'' ''t'' (Some (5 / 10)), link_update ''a'' ''t'' None]
     = [link_update ''b'' ''t'' (Some (5 / 10))]
   \<and> map strength (inMemoryLinks (handleLinkUpdate now (link_update ''a'' ''t'' None) emptyGraph))
     = [1]"
  by (simp add: resolveConflicts_def dedup_step_def merge_step_def link_update_def
      empty_data_def Map_get_def Map_values_def handleLinkUpdate_def emptyGraph_def Let_def)

section \<open>The vocabulary of the fallback embedding\<close>

lemma word_index_snoc_old: "w \<in> set ws \<Longrightarrow> word_index (ws @ [x]) w = word_index ws w"
  by (simp add: word_index_def takeWhile_append1 [where P = "\<lambda>y. y \<noteq> w"]) 

lemma word_index_snoc_new: "x \<notin> set ws \<Longrightarrow> word_index (ws @ [x]) x = card (set ws)"
proof -
  assume "x \<notin> set ws"
  then have "takeWhile (\<lambda>y. y \<noteq> x) (ws @ [x]) = ws @ takeWhile (\<lambda>y. y \<noteq> x) [x]"
    by (intro takeWhile_append2) auto
  then show ?thesis by (simp add: word_index_def)
qed

lemma vocab_fold:
  "map_of (fold vocab_step ws []) w = (if w \<in> set ws then Some (word_index ws w) else None)
   \<and> length (fold vocab_step ws []) = card (set ws)"
proof (induction ws arbitrary: w rule: rev_induct)
  case Nil
  show ?case by simp
next
  case (snoc x ws)
  define V where "V = fold vocab_step ws []"
  have V: "map_of V u = (if u \<in> set ws then Some (word_index ws u) else None)"
    "length V = card (set ws)" for u
    using snoc [of u] by (simp_all add: V_def)
  have fold: "fold vocab_step (ws @ [x]) [] = vocab_step x V"
    by (simp add: V_def)
  show ?case
  proof (cases "x \<in> set ws")
    case True
    then have "Map_has V x" by (simp add: Map_has_def V(1))
    then have same: "vocab_step x V = V" by (simp add: vocab_step_def)
    have "insert x (set ws) = set ws" using True by auto
    then show ?thesis
      unfolding fold same using True by (simp add: V word_index_snoc_old)
  next
    case False
    then have "\<not> Map_has V x" by (simp add: Map_has_def V(1))
    then have new: "vocab_step x V = V @ [(x, card (set ws))]"
      by (simp add: vocab_step_def Map_set_absent Map_size_def V(2))
    show ?thesis
      unfolding fold new using False
      by (auto simp: V word_index_snoc_old word_index_snoc_new map_add_def split: option.splits)
  qed
qed

lemma word_index_less: "w \<in> set ws \<Longrightarrow> word_index ws w < card (set ws)"
proof -
  assume w: "w \<in> set ws"
  have "w \<notin> set (takeWhile (\<lambda>x. x \<noteq> w) ws)"
    by (auto dest: set_takeWhileD)
  moreover have "set (takeWhile (\<lambda>x. x \<noteq> w) ws) \<subseteq> set ws"
    by (auto dest: set_takeWhileD)
  ultimately have "set (takeWhile (\<lambda>x. x \<noteq> w) ws) \<subset> set ws"
    using w by blast
  then show ?thesis
    unfolding word_index_def by (intro psubset_card_mono) simp_all
qed

section \<open>Counting the words\<close>

lemma count_step_length: "length (count_step vocab u emb) = length emb"
  by (simp add: count_step_def split: option.splits)

lemma count_step_nth:
  "i < length emb \<Longrightarrow>
   count_step vocab u emb ! i = emb ! i + (if Map_get vocab u = Some i \<and> i < 100 then 1 else 0)"
  by (auto simp: count_step_def nth_list_update split: option.splits)

lemma count_fold_length: "length (fold (count_step vocab) us emb) = length emb"
  by (induction us arbitrary: emb) (simp_all add: count_step_length)

lemma count_fold_nth:
  "i < length emb \<Longrightarrow>
   fold (count_step vocab) us emb ! i =
     emb ! i + real (length (filter (\<lambda>u. Map_get vocab u = Some i \<and> i < 100) us))"
proof (induction us arbitrary: emb)
  case Nil
  show ?case by simp
next
  case (Cons u us)
  have "fold (count_step vocab) (u # us) emb ! i = fold (count_step vocab) us (count_step vocab u emb) ! i"
    by simp
  also have "\<dots> = count_step vocab u emb ! i
      + real (length (filter (\<lambda>u. Map_get vocab u = Some i \<and> i < 100) us))"
    using Cons.prems by (intro Cons.IH) (simp add: count_step_length)
  also have "\<dots> = emb ! i + real (length (filter (\<lambda>u. Map_get vocab u = Some i \<and> i < 100) (u # us)))"
    using Cons.prems by (simp add: count_step_nth)
  finally show ?case .
qed

text \<open>The index that \<open>count_step\<close> updates is always inside the array.\<close>

lemma count_step_index_in_range:
  assumes "Map_get (fold vocab_step ws []) w = Some idx" and "idx < 100"
  shows "idx < length (replicate (min (Map_size (fold vocab_step ws [])) 100) (0::real))"
proof -
  from assms(1) have "w \<in> set ws" "idx = word_index ws w"
    by (simp_all add: Map_get_def vocab_fold split: if_splits)
  then have "idx < card (set ws)"
    using word_index_less [of w ws] by simp
  with assms(2) show ?thesis
    by (simp add: Map_size_def vocab_fold)
qed

lemma counted_embedding:
  "fold (count_step (fold vocab_step ws [])) ws
     (replicate (min (Map_size (fold vocab_step ws [])) 100) 0)
   = term_counts (min (card (set ws)) 100) ws"
proof (rule nth_equalityI)
  show "length (fold (count_step (fold vocab_step ws [])) ws
      (replicate (min (Map_size (fold vocab_step ws [])) 100) 0))
    = length (term_counts (min (card (set ws)) 100) ws)"
    by (simp add: count_fold_length Map_size_def vocab_fold term_counts_def)
next
  fix i
  assume "i < length (fold (count_step (fold vocab_step ws [])) ws
      (replicate (min (Map_size (fold vocab_step ws [])) 100) 0))"
  then have i: "i < min (card (set ws)) 100"
    by (simp add: count_fold_length Map_size_def vocab_fold)
  have same: "filter (\<lambda>u. Map_get (fold vocab_step ws []) u = Some i \<and> i < 100) ws
      = filter (\<lambda>w. word_index ws w = i) ws"
    using i by (intro filter_cong) (auto simp: Map_get_def vocab_fold)
  have len: "i < length (replicate (min (Map_size (fold vocab_step ws [])) 100) (0::real))"
    using i by (simp add: Map_size_def vocab_fold)
  have "fold (count_step (fold vocab_step ws [])) ws
      (replicate (min (Map_size (fold vocab_step ws [])) 100) 0) ! i
    = replicate (min (Map_size (fold vocab_step ws [])) 100) 0 ! i
      + real (length (filter (\<lambda>u. Map_get (fold vocab_step ws []) u = Some i \<and> i < 100) ws))"
    using len by (rule count_fold_nth)
  also have "\<dots> = real (length (filter (\<lambda>w. word_index ws w = i) ws))"
    unfolding same using len by simp
  also have "\<dots> = term_counts (min (card (set ws)) 100) ws ! i"
    using i by (simp add: term_counts_def)
  finally show "fold (count_step (fold vocab_step ws [])) ws
      (replicate (min (Map_size (fold vocab_step ws [])) 100) 0) ! i
    = term_counts (min (card (set ws)) 100) ws ! i" .
qed

lemma sum_squares_fold: "fold (\<lambda>val sum. sum + val * val) v s = s + (\<Sum>x\<leftarrow>v. x * x)"
  for v :: "real list"
  by (induction v arbitrary: s) simp_all

lemma sum_squares_nonneg: "0 \<le> (\<Sum>x\<leftarrow>v. x * x)"
  for v :: "real list"
  by (induction v) simp_all

lemma embed_words_eq: "embed_words ws = l2_normalize (term_counts (min (card (set ws)) 100) ws)"
proof -
  have "magnitude_of v > 0 \<longleftrightarrow> sqrt (\<Sum>x\<leftarrow>v. x * x) \<noteq> 0" for v
    using sum_squares_nonneg [of v] by (auto simp: magnitude_of_def sum_squares_fold)
  moreover have "magnitude_of v = sqrt (\<Sum>x\<leftarrow>v. x * x)" for v
    by (simp add: magnitude_of_def sum_squares_fold)
  ultimately show ?thesis
    by (simp add: embed_words_def counted_embedding l2_normalize_def Let_def)
qed

lemma length_l2_normalize: "length (l2_normalize v) = length v"
  by (simp add: l2_normalize_def Let_def)

lemma length_embed_words: "length (embed_words ws) = min (card (set ws)) 100"
  by (simp add: embed_words_eq length_l2_normalize term_counts_def)

lemma term_counts_pad:
  "term_counts 100 ws
     = term_counts (min (card (set ws)) 100) ws @ replicate (100 - min (card (set ws)) 100) 0"
proof -
  define L where "L = min (card (set ws)) 100"
  have L: "L \<le> 100" by (simp add: L_def)
  then have "[0..<100] = [0..<L] @ [L..<100]"
    using upt_add_eq_append [of 0 L "100 - L"] by simp
  moreover have "map (\<lambda>i. real (length (filter (\<lambda>w. word_index ws w = i) ws))) [L..<100]
      = map (\<lambda>i. 0) [L..<100]"
  proof (rule map_cong [OF refl])
    fix i assume "i \<in> set [L..<100]"
    then have "card (set ws) \<le> i" by (auto simp: L_def)
    then have "filter (\<lambda>w. word_index ws w = i) ws = []"
      using word_index_less [of _ ws] by (fastforce simp: filter_empty_conv)
    then show "real (length (filter (\<lambda>w. word_index ws w = i) ws)) = 0" by simp
  qed
  ultimately show ?thesis
    by (simp add: term_counts_def L_def [symmetric] map_replicate_const)
qed

lemma l2_normalize_pad: "l2_normalize (v @ replicate k 0) = l2_normalize v @ replicate k 0"
proof -
  have "(\<Sum>x\<leftarrow>replicate k (0::real). x * x) = 0"
    by (induction k) simp_all
  then show ?thesis
    by (simp add: l2_normalize_def Let_def)
qed

lemma spec_embedding_pad:
  "spec_embedding text =
     generateSimpleEmbedding text @ replicate (100 - length (generateSimpleEmbedding text)) 0"
proof -
  have "term_counts 100 (split_ws (toLowerCase text))
     = term_counts (min (card (set (split_ws (toLowerCase text)))) 100) (split_ws (toLowerCase text))
       @ replicate (100 - min (card (set (split_ws (toLowerCase text)))) 100) 0"
    by (rule term_counts_pad)
  then show ?thesis
    by (simp add: spec_embedding_def generateSimpleEmbedding_def embed_words_eq l2_normalize_pad
        length_l2_normalize term_counts_def)
qed

text \<open>
  Claim C2, as stated, fails: the vector is not a fixed 100-length vector. The text
  "hello world" has two distinct words and its embedding has two entries, where the
  embedding of the specification's wording has 100.
\<close>

theorem generateSimpleEmbedding_length_counterexample:
  "length (generateSimpleEmbedding ''hello world'') = 2
   \<and> length (spec_embedding ''hello world'') = 100"
  by (simp add: generateSimpleEmbedding_def length_embed_words spec_embedding_def
      length_l2_normalize term_counts_def split_ws_def toLowerCase_def lowerChar_def isSpace_def)

text \<open>
  Claim C2, amended. The fallback embedding of a text is the L2-normalised vector of the
  term counts of its tokens, indexed by first occurrence, of length
  \<open>min (number of distinct tokens) 100\<close> (returned as it is when its magnitude is zero);
  the 100-length vector of the specification's wording is this vector followed by zeros.
\<close>

theorem generateSimpleEmbedding_refines:
  "generateSimpleEmbedding text =
     l2_normalize (term_counts (min (card (set (split_ws (toLowerCase text)))) 100)
       (split_ws (toLowerCase text)))
   \<and> spec_embedding text =
       generateSimpleEmbedding text @ replicate (100 - length (generateSimpleEmbedding text)) 0"
  using spec_embedding_pad [of "text"]
  by (simp add: generateSimpleEmbedding_def embed_words_eq)

section \<open>Search in the in-memory store\<close>

lemma set_deleteDocument: "set (deleteDocument ident s) \<subseteq> set s"
proof (cases "findIndex (\<lambda>doc. vd_id doc = ident) s")
  case None
  then show ?thesis by (simp add: deleteDocument_def)
next
  case (Some i)
  have "set (take i s) \<subseteq> set s" "set (drop (Suc i) s) \<subseteq> set s"
    by (rule set_take_subset, rule set_drop_subset)
  with Some show ?thesis by (simp add: deleteDocument_def)
qed

lemma reachable_store_embedding:
  "reachable_store s \<Longrightarrow>
   \<forall>d\<in>set s. vd_embedding d = Some (generateSimpleEmbedding (vd_content d))"
proof (induction rule: reachable_store.induct)
  case initial
  show ?case by simp
next
  case (added s doc)
  then show ?case by (simp add: addDocument_def)
next
  case (deleted s ident)
  then show ?case using set_deleteDocument [of ident s] by blast
qed

lemma set_slice0: "set (slice0 xs limit) \<subseteq> set xs"
  by (simp add: slice0_def set_take_subset)

lemma search_result:
  assumes "r \<in> set (search query limit s)"
  shows "\<exists>d\<in>set s. sr_content r = vd_content d
           \<and> sr_similarity r = cosineSimilarity (generateSimpleEmbedding query)
                (case vd_embedding d of None \<Rightarrow> [] | Some e \<Rightarrow> e)"
proof -
  define scored where "scored = map (\<lambda>doc. (doc, cosineSimilarity (generateSimpleEmbedding query)
                                  (case vd_embedding doc of None \<Rightarrow> [] | Some e \<Rightarrow> e))) s"
  from assms obtain p where p: "p \<in> set (slice0 (sort_key (\<lambda>p. - snd p) scored) limit)"
    "r = \<lparr>sr_id = vd_id (fst p), sr_content = vd_content (fst p),
          sr_metadata = vd_metadata (fst p), sr_similarity = snd p\<rparr>"
    by (auto simp: search_def Let_def scored_def)
  from p(1) have "p \<in> set scored"
    using set_slice0 [of "sort_key (\<lambda>p. - snd p) scored" limit] by auto
  then obtain d where "d \<in> set s" "p = (d, cosineSimilarity (generateSimpleEmbedding query)
                                  (case vd_embedding d of None \<Rightarrow> [] | Some e \<Rightarrow> e))"
    by (auto simp: scored_def)
  with p(2) show ?thesis by auto
qed

text \<open>
  Claim C10. The fallback embedding of a text has as many entries as the text has distinct
  tokens, capped at 100; so in every store built by the operations of the vector store,
  each stored document whose content has another capped number of distinct tokens than
  the query is scored with similarity exactly 0, and so is each search result of that kind.
\<close>

theorem search_length_mismatch:
  assumes "reachable_store store"
  shows "length (generateSimpleEmbedding text) = min (card (set (split_ws (toLowerCase text)))) 100
    \<and> (\<forall>r\<in>set (search query limit store).
         min (card (set (split_ws (toLowerCase (sr_content r))))) 100
           \<noteq> min (card (set (split_ws (toLowerCase query)))) 100
         \<longrightarrow> sr_similarity r = 0)
    \<and> (\<forall>d\<in>set store.
         min (card (set (split_ws (toLowerCase (vd_content d))))) 100
           \<noteq> min (card (set (split_ws (toLowerCase query)))) 100
         \<longrightarrow> cosineSimilarity (generateSimpleEmbedding query)
               (case vd_embedding d of None \<Rightarrow> [] | Some e \<Rightarrow> e) = 0)"
proof -
  have len: "length (generateSimpleEmbedding t) = min (card (set (split_ws (toLowerCase t)))) 100" for t
    by (simp add: generateSimpleEmbedding_def length_embed_words)
  have scored: "cosineSimilarity (generateSimpleEmbedding query)
               (case vd_embedding d of None \<Rightarrow> [] | Some e \<Rightarrow> e) = 0"
    if d: "d \<in> set store"
      and ne: "min (card (set (split_ws (toLowerCase (vd_content d))))) 100
           \<noteq> min (card (set (split_ws (toLowerCase query)))) 100" for d
  proof -
    from reachable_store_embedding [OF assms] d
    have e: "vd_embedding d = Some (generateSimpleEmbedding (vd_content d))" by blast
    have "length (generateSimpleEmbedding query) \<noteq> length (generateSimpleEmbedding (vd_content d))"
      using ne unfolding len by simp
    then show ?thesis
      unfolding e by (simp add: cosineSimilarity_def)
  qed
  have "sr_similarity r = 0"
    if r: "r \<in> set (search query limit store)"
      and ne: "min (card (set (split_ws (toLowerCase (sr_content r))))) 100
           \<noteq> min (card (set (split_ws (toLowerCase query)))) 100" for r
  proof -
    from search_result [OF r] obtain d where d: "d \<in> set store" "sr_content r = vd_content d"
      "sr_similarity r = cosineSimilarity (generateSimpleEmbedding query)
                (case vd_embedding d of None \<Rightarrow> [] | Some e \<Rightarrow> e)"
      by blast
    from reachable_store_embedding [OF assms] d(1)
    have "vd_embedding d = Some (generateSimpleEmbedding (vd_content d))" by blast
    with d have sim: "sr_similarity r = cosineSimilarity (generateSimpleEmbedding query)
        (generateSimpleEmbedding (sr_content r))"
      by simp
    have "length (generateSimpleEmbedding query) \<noteq> length (generateSimpleEmbedding (sr_content r))"
      using ne unfolding len by simp
    then show ?thesis
      unfolding sim by (simp add: cosineSimilarity_def)
  qed
  with len [of "text"] scored show ?thesis by blast
qed

theorem search_length_mismatch_witness:
  "search ''hello world'' 10
     (addDocument \<lparr>di_id = ''d1'', di_content = ''hello world foo'', di_metadata = []\<rparr> [])
   = [\<lparr>sr_id = ''d1'', sr_content = ''hello world foo'', sr_metadata = [], sr_similarity = 0\<rparr>]
   \<and> length (generateSimpleEmbedding ''hello world foo'') = 3"
proof -
  define store where
    "store = addDocument \<lparr>di_id = ''d1'', di_content = ''hello world foo'', di_metadata = []\<rparr> []"
  define c where "c = cosineSimilarity (generateSimpleEmbedding ''hello world'')
      (generateSimpleEmbedding ''hello world foo'')"
  have reach: "reachable_store store"
    unfolding store_def by (intro reachable_store.intros)
  have res: "search ''hello world'' 10 store
      = [\<lparr>sr_id = ''d1'', sr_content = ''hello world foo'', sr_metadata = [], sr_similarity = c\<rparr>]"
    by (simp add: search_def store_def addDocument_def slice0_def Let_def c_def)
  have tokens: "split_ws (toLowerCase ''hello world foo'') = [''hello'', ''world'', ''foo'']"
    "split_ws (toLowerCase ''hello world'') = [''hello'', ''world'']"
    by (simp_all add: split_ws_def toLowerCase_def lowerChar_def isSpace_def)
  have counts: "min (card (set (split_ws (toLowerCase ''hello world foo'')))) 100 = 3"
    "min (card (set (split_ws (toLowerCase ''hello world'')))) 100 = 2"
    unfolding tokens by simp_all
  from search_length_mismatch [OF reach, of "''hello world foo''" "''hello world''" 10]
  have len: "length (generateSimpleEmbedding ''hello world foo'') = 3"
    and zero: "\<forall>r\<in>set (search ''hello world'' 10 store).
         min (card (set (split_ws (toLowerCase (sr_content r))))) 100
           \<noteq> min (card (set (split_ws (toLowerCase ''hello world'')))) 100
         \<longrightarrow> sr_similarity r = 0"
    unfolding counts by simp_all
  from zero have "c = 0"
    unfolding res by (simp add: counts)
  with res len show ?thesis
    unfolding store_def by simp
qed

end
